theory Spec2Isabelle
  imports Complex_Main "HOL-Library.Word"
begin

section \<open>JavaScript strings\<close>

text \<open>
  A JavaScript string is a sequence of UTF-16 code units, so a string of the program is a
  list of 16-bit words. An ASCII literal of the source is written \<open>js ''...''\<close>; a
  character outside ASCII is written by its code unit.
\<close>

type_synonym cu = "16 word"
type_synonym jsstring = "cu list"

definition js :: "string \<Rightarrow> jsstring" where
  "js s = map of_char s"

text \<open>
  \<^verbatim>\<open>String.prototype.trim\<close> removes leading and trailing white space and line
  terminators: TAB, LF, VT, FF, CR, SP, NBSP, U+1680, U+2000 to U+200A, U+2028, U+2029,
  U+202F, U+205F, U+3000 and U+FEFF.
\<close>

definition isWhiteSpace :: "cu \<Rightarrow> bool" where
  "isWhiteSpace c \<longleftrightarrow>
     c = 0x9 \<or> c = 0xA \<or> c = 0xB \<or> c = 0xC \<or> c = 0xD \<or> c = 0x20 \<or> c = 0xA0 \<or>
     c = 0x1680 \<or> (0x2000 \<le> c \<and> c \<le> 0x200A) \<or> c = 0x2028 \<or> c = 0x2029 \<or>
     c = 0x202F \<or> c = 0x205F \<or> c = 0x3000 \<or> c = 0xFEFF"

definition trim :: "jsstring \<Rightarrow> jsstring" where
  "trim s = rev (dropWhile isWhiteSpace (rev (dropWhile isWhiteSpace s)))"

text \<open>
  \<^verbatim>\<open>String(n)\<close> for a non-negative integer \<open>n\<close> (a chapter id is an array index
  plus one) is its decimal representation; \<^verbatim>\<open>s.padStart(k, '0')\<close> prepends zeros up to
  length \<open>k\<close>.
\<close>

definition digit :: "nat \<Rightarrow> cu" where
  "digit d = of_nat (48 + d)"

fun numberToString :: "nat \<Rightarrow> jsstring" where
  "numberToString n =
     (if n < 10 then [digit n] else numberToString (n div 10) @ [digit (n mod 10)])"

declare numberToString.simps [simp del]

definition padStart :: "nat \<Rightarrow> cu \<Rightarrow> jsstring \<Rightarrow> jsstring" where
  "padStart k fill s = replicate (k - length s) fill @ s"

section \<open>The data model (types.ts)\<close>

datatype status = Pending | Crawling | Success | Error

text \<open>
  The field \<^verbatim>\<open>id\<close> of a chapter is written \<open>id'\<close>, and the title and chapter list of
  the novel's metadata \<open>title'\<close> and \<open>chapters'\<close>, to keep them apart from the identity
  function and from the fields of the same name.
\<close>

record Chapter =
  id' :: nat
  title :: jsstring
  status :: status
  content :: "jsstring option"

record GitHubConfig =
  token :: jsstring
  owner :: jsstring
  repo :: jsstring
  pathPrefix :: jsstring

record NovelMetadata =
  title' :: jsstring
  author :: jsstring
  description :: jsstring
  totalChaptersEstimate :: nat
  chapters' :: "jsstring list"
  sources :: "jsstring list option"

datatype LogLevel = INFO | SUCCESS | WARNING | ERROR

text \<open>A log entry without its random id and its timestamp.\<close>

datatype LogEntry = LogEntry LogLevel jsstring

datatype AppState = AppSetup | AppSearch | AppPreview | AppCrawling | AppFinished

text \<open>Values a JavaScript operation of the program can throw.\<close>

datatype JsError = URIError | InvalidCharacterError | TypeError | Thrown jsstring

section \<open>File names (App.tsx, processNextChapter)\<close>

text \<open>
  \<^verbatim>\<open>const sanitize = (str) => str.replace(/[<>:"/\\|?*]+/g, '_').replace(/[\r\n]+/g, '').trim();\<close>

  The character class holds \<open><\<close> (3C), \<open>>\<close> (3E), \<open>:\<close> (3A), the double quote (22),
  \<open>/\<close> (2F), the backslash (5C), \<open>|\<close> (7C), \<open>?\<close> (3F) and \<open>*\<close> (2A). The first
  replacement puts one underscore (5F) for every maximal run of them; the second deletes
  every CR (0D) and LF (0A).
\<close>

definition isUnsafe :: "cu \<Rightarrow> bool" where
  "isUnsafe c \<longleftrightarrow>
     c = 0x3C \<or> c = 0x3E \<or> c = 0x3A \<or> c = 0x22 \<or> c = 0x2F \<or> c = 0x5C \<or> c = 0x7C \<or>
     c = 0x3F \<or> c = 0x2A"

function replaceUnsafe :: "jsstring \<Rightarrow> jsstring" where
  "replaceUnsafe [] = []"
| "replaceUnsafe (c # cs) =
     (if isUnsafe c then 0x5F # replaceUnsafe (dropWhile isUnsafe cs)
      else c # replaceUnsafe cs)"
  by pat_completeness auto
termination
  by (relation "measure length") (auto simp: length_dropWhile_le less_Suc_eq_le)

definition isCRLF :: "cu \<Rightarrow> bool" where
  "isCRLF c \<longleftrightarrow> c = 0xD \<or> c = 0xA"

definition removeCRLF :: "jsstring \<Rightarrow> jsstring" where
  "removeCRLF s = filter (\<lambda>c. \<not> isCRLF c) s"

definition sanitize :: "jsstring \<Rightarrow> jsstring" where
  "sanitize str = trim (removeCRLF (replaceUnsafe str))"

text \<open>
  \<^verbatim>\<open>const fileName = `${safeNovelTitle}/${String(chapter.id).padStart(3, '0')}_${safeChapterTitle}.md`;\<close>
\<close>

definition fileName :: "jsstring \<Rightarrow> Chapter \<Rightarrow> jsstring" where
  "fileName novelTitle ch =
     sanitize novelTitle @ js ''/'' @ padStart 3 0x30 (numberToString (id' ch)) @ js ''_'' @
     sanitize (title ch) @ js ''.md''"

section \<open>Store paths (githubService.ts, uploadFileToGitHub)\<close>

text \<open>
  \<^verbatim>\<open>const rawPath = `${config.pathPrefix}${fileName}`.replace(/\/+/g, '/').replace(/^\//, '');\<close>
\<close>

definition isSlash :: "cu \<Rightarrow> bool" where
  "isSlash c \<longleftrightarrow> c = 0x2F"

function collapseSlashes :: "jsstring \<Rightarrow> jsstring" where
  "collapseSlashes [] = []"
| "collapseSlashes (c # cs) =
     (if isSlash c then 0x2F # collapseSlashes (dropWhile isSlash cs)
      else c # collapseSlashes cs)"
  by pat_completeness auto
termination
  by (relation "measure length") (auto simp: length_dropWhile_le less_Suc_eq_le)

definition stripLeadingSlash :: "jsstring \<Rightarrow> jsstring" where
  "stripLeadingSlash s = (case s of [] \<Rightarrow> [] | c # cs \<Rightarrow> if isSlash c then cs else s)"

definition rawPath :: "GitHubConfig \<Rightarrow> jsstring \<Rightarrow> jsstring" where
  "rawPath config fname = stripLeadingSlash (collapseSlashes (pathPrefix config @ fname))"


text \<open>The configuration the application starts with (App.tsx).\<close>

definition DEFAULT_CONFIG :: GitHubConfig where
  "DEFAULT_CONFIG =
     \<lparr>token = [], owner = js ''liquanlianshi'', repo = js ''novels'',
      pathPrefix = js ''novels/my-novels/''\<rparr>"

section \<open>URI encoding and base64 (the built-in functions the services call)\<close>

text \<open>
  \<^verbatim>\<open>encodeURIComponent\<close> leaves letters, digits and the marks \<open>- _ . ! ~ * ' ( )\<close> as
  they are, and writes every other code point as the \<open>%XX\<close> escapes (upper-case hex) of
  its UTF-8 bytes. A surrogate code unit that is not part of a pair makes it throw
  \<^verbatim>\<open>URIError\<close>.
\<close>

definition isAlnum :: "cu \<Rightarrow> bool" where
  "isAlnum c \<longleftrightarrow>
     (0x41 \<le> c \<and> c \<le> 0x5A) \<or> (0x61 \<le> c \<and> c \<le> 0x7A) \<or> (0x30 \<le> c \<and> c \<le> 0x39)"

definition isUriMark :: "cu \<Rightarrow> bool" where
  "isUriMark c \<longleftrightarrow>
     c = 0x2D \<or> c = 0x5F \<or> c = 0x2E \<or> c = 0x21 \<or> c = 0x7E \<or> c = 0x2A \<or> c = 0x27 \<or>
     c = 0x28 \<or> c = 0x29"

definition isUriUnescaped :: "cu \<Rightarrow> bool" where
  "isUriUnescaped c \<longleftrightarrow> isAlnum c \<or> isUriMark c"

definition isLead :: "cu \<Rightarrow> bool" where
  "isLead c \<longleftrightarrow> 0xD800 \<le> c \<and> c \<le> 0xDBFF"

definition isTrail :: "cu \<Rightarrow> bool" where
  "isTrail c \<longleftrightarrow> 0xDC00 \<le> c \<and> c \<le> 0xDFFF"

definition pairCodePoint :: "cu \<Rightarrow> cu \<Rightarrow> nat" where
  "pairCodePoint c d = 0x10000 + (unat c - 0xD800) * 0x400 + (unat d - 0xDC00)"

definition utf8 :: "nat \<Rightarrow> nat list" where
  "utf8 cp =
     (if cp < 0x80 then [cp]
      else if cp < 0x800 then [0xC0 + cp div 0x40, 0x80 + cp mod 0x40]
      else if cp < 0x10000 then
        [0xE0 + cp div 0x1000, 0x80 + cp div 0x40 mod 0x40, 0x80 + cp mod 0x40]
      else
        [0xF0 + cp div 0x40000, 0x80 + cp div 0x1000 mod 0x40, 0x80 + cp div 0x40 mod 0x40,
         0x80 + cp mod 0x40])"

definition hexDigit :: "nat \<Rightarrow> cu" where
  "hexDigit d = of_nat (if d < 10 then 48 + d else 55 + d)"

definition percentEncode :: "nat list \<Rightarrow> jsstring" where
  "percentEncode bytes = concat (map (\<lambda>b. [0x25, hexDigit (b div 16), hexDigit (b mod 16)]) bytes)"

definition appendR :: "jsstring \<Rightarrow> JsError + jsstring \<Rightarrow> JsError + jsstring" where
  "appendR x r = (case r of Inl e \<Rightarrow> Inl e | Inr y \<Rightarrow> Inr (x @ y))"

fun encodeURIComponent :: "jsstring \<Rightarrow> JsError + jsstring" where
  "encodeURIComponent [] = Inr []"
| "encodeURIComponent (c # cs) =
     (if isUriUnescaped c then appendR [c] (encodeURIComponent cs)
      else if isTrail c then Inl URIError
      else if \<not> isLead c then appendR (percentEncode (utf8 (unat c))) (encodeURIComponent cs)
      else (case cs of
              [] \<Rightarrow> Inl URIError
            | d # ds \<Rightarrow>
                if isTrail d
                then appendR (percentEncode (utf8 (pairCodePoint c d))) (encodeURIComponent ds)
                else Inl URIError))"

text \<open>
  \<^verbatim>\<open>unescape\<close> replaces \<open>%uXXXX\<close> by the code unit XXXX and \<open>%XX\<close> by the code unit
  XX (hex digits of either case), and copies everything else.
\<close>

definition hexDigitValue :: "cu \<Rightarrow> nat option" where
  "hexDigitValue c =
     (if 0x30 \<le> c \<and> c \<le> 0x39 then Some (unat c - 0x30)
      else if 0x41 \<le> c \<and> c \<le> 0x46 then Some (unat c - 0x37)
      else if 0x61 \<le> c \<and> c \<le> 0x66 then Some (unat c - 0x57)
      else None)"

fun hexValue :: "jsstring \<Rightarrow> nat option" where
  "hexValue [] = Some 0"
| "hexValue (c # cs) =
     (case hexDigitValue c of
        None \<Rightarrow> None
      | Some d \<Rightarrow> (case hexValue cs of None \<Rightarrow> None | Some v \<Rightarrow> Some (d * 16 ^ length cs + v)))"

function unescape :: "jsstring \<Rightarrow> jsstring" where
  "unescape [] = []"
| "unescape (c # cs) =
     (if c = 0x25 \<and> 5 \<le> length cs \<and> hd cs = 0x75 \<and> hexValue (take 4 (tl cs)) \<noteq> None
      then of_nat (the (hexValue (take 4 (tl cs)))) # unescape (drop 5 cs)
      else if c = 0x25 \<and> 2 \<le> length cs \<and> hexValue (take 2 cs) \<noteq> None
      then of_nat (the (hexValue (take 2 cs))) # unescape (drop 2 cs)
      else c # unescape cs)"
  by pat_completeness auto
termination
  by (relation "measure length") auto

text \<open>
  \<^verbatim>\<open>btoa\<close> throws \<^verbatim>\<open>InvalidCharacterError\<close> when a code unit is above 0xFF, and
  otherwise writes the code units, read as bytes, in base64 with padding.
\<close>

definition base64Char :: "nat \<Rightarrow> cu" where
  "base64Char n =
     of_nat (if n < 26 then 65 + n else if n < 52 then 71 + n else if n < 62 then n - 4
             else if n = 62 then 43 else 47)"

fun base64 :: "nat list \<Rightarrow> jsstring" where
  "base64 (a # b # c # rest) =
     [base64Char (a div 4), base64Char (a mod 4 * 16 + b div 16),
      base64Char (b mod 16 * 4 + c div 64), base64Char (c mod 64)] @ base64 rest"
| "base64 [a, b] =
     [base64Char (a div 4), base64Char (a mod 4 * 16 + b div 16), base64Char (b mod 16 * 4), 0x3D]"
| "base64 [a] = [base64Char (a div 4), base64Char (a mod 4 * 16), 0x3D, 0x3D]"
| "base64 [] = []"

definition btoa :: "jsstring \<Rightarrow> JsError + jsstring" where
  "btoa s = (if list_ex (\<lambda>c. 0xFF < c) s then Inl InvalidCharacterError
             else Inr (base64 (map unat s)))"

section \<open>Well-formed strings and the shape of paths\<close>

text \<open>
  A string is well formed when every surrogate code unit is part of a pair: a leading
  surrogate directly followed by a trailing one.
\<close>

fun wellFormed :: "jsstring \<Rightarrow> bool" where
  "wellFormed [] = True"
| "wellFormed (c # cs) =
     (if isLead c then (case cs of [] \<Rightarrow> False | d # ds \<Rightarrow> isTrail d \<and> wellFormed ds)
      else \<not> isTrail c \<and> wellFormed cs)"

text \<open>Two slashes side by side.\<close>

fun hasDoubleSlash :: "jsstring \<Rightarrow> bool" where
  "hasDoubleSlash (a # b # cs) = (isSlash a \<and> isSlash b \<or> hasDoubleSlash (b # cs))"
| "hasDoubleSlash [a] = False"
| "hasDoubleSlash [] = False"

text \<open>What \<^verbatim>\<open>encodeURIComponent\<close> can write: a percent sign or a character it leaves alone.\<close>

definition isEncodedChar :: "cu \<Rightarrow> bool" where
  "isEncodedChar c \<longleftrightarrow> c = 0x25 \<or> isUriUnescaped c"

text \<open>
  The UTF-8 bytes of a string, code point by code point (a surrogate without its partner
  is taken as a code point of its own; the properties below use the function on
  well-formed strings only).
\<close>

fun utf8Bytes :: "jsstring \<Rightarrow> nat list" where
  "utf8Bytes [] = []"
| "utf8Bytes (c # cs) =
     (if isLead c
      then (case cs of
              [] \<Rightarrow> utf8 (unat c)
            | d # ds \<Rightarrow> if isTrail d then utf8 (pairCodePoint c d) @ utf8Bytes ds
                       else utf8 (unat c) @ utf8Bytes cs)
      else utf8 (unat c) @ utf8Bytes cs)"

section \<open>The decoder of the content encoding\<close>

text \<open>
  The repository only encodes. The text is read back by the inverse of the same idiom,
  \<^verbatim>\<open>decodeURIComponent(escape(atob(b64)))\<close>, three built-in functions. \<^verbatim>\<open>atob\<close> is
  modelled in its strict form (groups of four characters, padded, no white space), which
  is what \<^verbatim>\<open>btoa\<close> writes.
\<close>

definition base64Value :: "cu \<Rightarrow> nat option" where
  "base64Value c =
     (if 0x41 \<le> c \<and> c \<le> 0x5A then Some (unat c - 65)
      else if 0x61 \<le> c \<and> c \<le> 0x7A then Some (unat c - 71)
      else if 0x30 \<le> c \<and> c \<le> 0x39 then Some (unat c + 4)
      else if c = 0x2B then Some 62
      else if c = 0x2F then Some 63
      else None)"

fun base64Decode :: "jsstring \<Rightarrow> nat list option" where
  "base64Decode [] = Some []"
| "base64Decode (a # b # c # d # rest) =
     (case (base64Value a, base64Value b) of
        (Some x, Some y) \<Rightarrow>
          if rest = [] \<and> c = 0x3D \<and> d = 0x3D then Some [x * 4 + y div 16]
          else (case base64Value c of
                  None \<Rightarrow> None
                | Some z \<Rightarrow>
                    if rest = [] \<and> d = 0x3D then Some [x * 4 + y div 16, y mod 16 * 16 + z div 4]
                    else (case (base64Value d, base64Decode rest) of
                            (Some w, Some bs) \<Rightarrow>
                              Some ([x * 4 + y div 16, y mod 16 * 16 + z div 4, z mod 4 * 64 + w] @ bs)
                          | _ \<Rightarrow> None))
      | _ \<Rightarrow> None)"
| "base64Decode _ = None"

definition atob :: "jsstring \<Rightarrow> JsError + jsstring" where
  "atob s = (case base64Decode s of None \<Rightarrow> Inl InvalidCharacterError
             | Some bs \<Rightarrow> Inr (map of_nat bs))"

text \<open>
  \<^verbatim>\<open>escape\<close> leaves letters, digits and \<open>@ * _ + - . /\<close> as they are, writes any other
  code unit below 256 as \<open>%XX\<close> and the rest as \<open>%uXXXX\<close>.
\<close>

definition isEscapeUnescaped :: "cu \<Rightarrow> bool" where
  "isEscapeUnescaped c \<longleftrightarrow>
     isAlnum c \<or> c = 0x40 \<or> c = 0x2A \<or> c = 0x5F \<or> c = 0x2B \<or> c = 0x2D \<or> c = 0x2E \<or>
     c = 0x2F"

definition escapeUnit :: "cu \<Rightarrow> jsstring" where
  "escapeUnit c =
     (if isEscapeUnescaped c then [c]
      else if c < 0x100 then [0x25, hexDigit (unat c div 16), hexDigit (unat c mod 16)]
      else [0x25, 0x75, hexDigit (unat c div 4096), hexDigit (unat c div 256 mod 16),
            hexDigit (unat c div 16 mod 16), hexDigit (unat c mod 16)])"

definition escape :: "jsstring \<Rightarrow> jsstring" where
  "escape s = concat (map escapeUnit s)"

text \<open>
  \<^verbatim>\<open>decodeURIComponent\<close> copies every character but the percent sign. At a percent
  sign it reads the escape \<open>%XX\<close>; the byte tells how many bytes the UTF-8 sequence has,
  the following escapes give the rest of them, and the sequence must be the UTF-8 encoding
  of a code point (no overlong form, no surrogate, nothing above U+10FFFF), which is
  written as one or two UTF-16 code units. Everything else throws \<^verbatim>\<open>URIError\<close>.
\<close>

definition sequenceLength :: "nat \<Rightarrow> nat option" where
  "sequenceLength b =
     (if b < 0x80 then Some 1
      else if 0xC0 \<le> b \<and> b < 0xE0 then Some 2
      else if 0xE0 \<le> b \<and> b < 0xF0 then Some 3
      else if 0xF0 \<le> b \<and> b < 0xF8 then Some 4
      else None)"

fun readEscapes :: "nat \<Rightarrow> jsstring \<Rightarrow> nat list option" where
  "readEscapes 0 s = Some []"
| "readEscapes (Suc n) s =
     (if 3 \<le> length s \<and> hd s = 0x25
      then (case (hexValue (take 2 (tl s)), readEscapes n (drop 3 s)) of
              (Some b, Some bs) \<Rightarrow> Some (b # bs)
            | _ \<Rightarrow> None)
      else None)"

definition isContinuation :: "nat \<Rightarrow> bool" where
  "isContinuation b \<longleftrightarrow> 0x80 \<le> b \<and> b < 0xC0"

definition utf8Decode :: "nat list \<Rightarrow> nat option" where
  "utf8Decode bs =
     (case bs of
        [a] \<Rightarrow> if a < 0x80 then Some a else None
      | [a, b] \<Rightarrow>
          if isContinuation b \<and> 0x80 \<le> (a - 0xC0) * 0x40 + (b - 0x80)
          then Some ((a - 0xC0) * 0x40 + (b - 0x80)) else None
      | [a, b, c] \<Rightarrow>
          let cp = (a - 0xE0) * 0x1000 + (b - 0x80) * 0x40 + (c - 0x80)
          in if isContinuation b \<and> isContinuation c \<and> 0x800 \<le> cp \<and>
                (cp < 0xD800 \<or> 0xDFFF < cp)
             then Some cp else None
      | [a, b, c, d] \<Rightarrow>
          let cp = (a - 0xF0) * 0x40000 + (b - 0x80) * 0x1000 + (c - 0x80) * 0x40 + (d - 0x80)
          in if isContinuation b \<and> isContinuation c \<and> isContinuation d \<and> 0x10000 \<le> cp \<and>
                cp \<le> 0x10FFFF
             then Some cp else None
      | _ \<Rightarrow> None)"

definition utf16 :: "nat \<Rightarrow> jsstring" where
  "utf16 cp =
     (if cp < 0x10000 then [of_nat cp]
      else [of_nat (0xD800 + (cp - 0x10000) div 0x400), of_nat (0xDC00 + (cp - 0x10000) mod 0x400)])"

function decodeURIComponent :: "jsstring \<Rightarrow> JsError + jsstring" where
  "decodeURIComponent [] = Inr []"
| "decodeURIComponent (c # cs) =
     (if c \<noteq> 0x25 then appendR [c] (decodeURIComponent cs)
      else if length cs < 2 then Inl URIError
      else (case hexValue (take 2 cs) of
              None \<Rightarrow> Inl URIError
            | Some b \<Rightarrow>
                (case sequenceLength b of
                   None \<Rightarrow> Inl URIError
                 | Some n \<Rightarrow>
                     (case readEscapes n (c # cs) of
                        None \<Rightarrow> Inl URIError
                      | Some bs \<Rightarrow>
                          (case utf8Decode bs of
                             None \<Rightarrow> Inl URIError
                           | Some cp \<Rightarrow>
                               appendR (utf16 cp) (decodeURIComponent (drop (3 * n - 1) cs)))))))"
  by pat_completeness auto
termination
  by (relation "measure length") auto

definition decodeContent :: "jsstring \<Rightarrow> JsError + jsstring" where
  "decodeContent b64 =
     (case atob b64 of Inl e \<Rightarrow> Inl e | Inr bin \<Rightarrow> decodeURIComponent (escape bin))"

section \<open>The provider client (geminiService.ts)\<close>

text \<open>
  What \<^verbatim>\<open>ai.models.generateContent\<close> does with the prompt built from the two titles:
  it throws (the error as the template literal prints it), or it answers with
  \<^verbatim>\<open>response.text\<close> (possibly undefined or empty) and the grounding chunks, each with its
  \<^verbatim>\<open>web.uri\<close> when it has one.
\<close>

datatype ProviderOutcome =
  ProviderThrows jsstring
| ProviderResponse "jsstring option" "jsstring option list"

text \<open>\<^verbatim>\<open>[...new Set(sources)]\<close>: the first occurrence of each source, in order.\<close>

fun uniqueSources :: "jsstring list \<Rightarrow> jsstring list" where
  "uniqueSources [] = []"
| "uniqueSources (x # xs) = x # uniqueSources (filter (\<lambda>y. y \<noteq> x) xs)"

fun joinWith :: "jsstring \<Rightarrow> jsstring list \<Rightarrow> jsstring" where
  "joinWith sep [] = []"
| "joinWith sep [x] = x"
| "joinWith sep (x # y # ys) = x @ sep @ joinWith sep (y # ys)"

text \<open>The body of the \<^verbatim>\<open>try\<close> block: \<open>Inl\<close> is what it throws.\<close>

definition fetchChapterContentTry ::
  "(jsstring \<Rightarrow> jsstring \<Rightarrow> ProviderOutcome) \<Rightarrow> jsstring \<Rightarrow> jsstring \<Rightarrow> jsstring + jsstring" where
  "fetchChapterContentTry provider novelTitle chapterTitle =
     (case provider novelTitle chapterTitle of
        ProviderThrows err \<Rightarrow> Inl err
      | ProviderResponse txt chunks \<Rightarrow>
          let srcs = concat (map (\<lambda>u. case u of Some uri \<Rightarrow> if uri \<noteq> [] then [uri] else []
                                            | None \<Rightarrow> []) chunks);
              cont = (case txt of Some t \<Rightarrow> if t \<noteq> [] then t
                                                  else js ''Error: No content generated.''
                         | None \<Rightarrow> js ''Error: No content generated.'')
          in Inr (if srcs \<noteq> []
                  then cont @ [0xA, 0xA] @ js ''---'' @ [0xA] @ js ''**Sources:**'' @ [0xA] @
                       joinWith [0xA] (map (\<lambda>s. js ''- <'' @ s @ js ''>'') (uniqueSources srcs))
                  else cont))"

text \<open>The whole function: the \<^verbatim>\<open>catch\<close> block turns whatever was thrown into a string.\<close>

definition fetchChapterContent ::
  "(jsstring \<Rightarrow> jsstring \<Rightarrow> ProviderOutcome) \<Rightarrow> jsstring \<Rightarrow> jsstring \<Rightarrow> JsError + jsstring" where
  "fetchChapterContent provider novelTitle chapterTitle =
     (case fetchChapterContentTry provider novelTitle chapterTitle of
        Inr cont \<Rightarrow> Inr cont
      | Inl err \<Rightarrow>
          Inr (js ''Error retrieving content for '' @ chapterTitle @ js ''. '' @ [0xA, 0xA] @
               js ''System Error: '' @ err))"


section \<open>The store client (githubService.ts)\<close>

text \<open>
  \<^verbatim>\<open>const encodedPath = rawPath.split('/').map(encodeURIComponent).join('/');\<close>
\<close>

fun splitSlash :: "jsstring \<Rightarrow> jsstring list" where
  "splitSlash [] = [[]]"
| "splitSlash (c # cs) =
     (if isSlash c then [] # splitSlash cs
      else (case splitSlash cs of [] \<Rightarrow> [[c]] | seg # segs \<Rightarrow> (c # seg) # segs))"

fun mapEncode :: "jsstring list \<Rightarrow> JsError + jsstring list" where
  "mapEncode [] = Inr []"
| "mapEncode (seg # segs) =
     (case encodeURIComponent seg of
        Inl e \<Rightarrow> Inl e
      | Inr x \<Rightarrow> (case mapEncode segs of Inl e \<Rightarrow> Inl e | Inr xs \<Rightarrow> Inr (x # xs)))"

definition encodedPath :: "jsstring \<Rightarrow> JsError + jsstring" where
  "encodedPath raw =
     (case mapEncode (splitSlash raw) of Inl e \<Rightarrow> Inl e | Inr segs \<Rightarrow> Inr (joinWith [0x2F] segs))"

text \<open>
  The network, as the function sees it. A \<^verbatim>\<open>fetch\<close> throws or answers. Of the answer
  to the GET the function reads \<^verbatim>\<open>ok\<close> and, when it is set, \<^verbatim>\<open>(await json()).sha\<close>:
  reading it throws, or gives the field's value (\<open>None\<close> for undefined). Of the answer
  to the PUT it reads \<^verbatim>\<open>ok\<close>, \<^verbatim>\<open>status\<close> and \<^verbatim>\<open>await text()\<close>, which throws (with the
  error's \<^verbatim>\<open>message\<close>) or gives the text and, when \<^verbatim>\<open>JSON.parse\<close> reads it as an
  object with a \<^verbatim>\<open>message\<close>, that message.
\<close>

datatype JsonSha = JsonThrows | JsonSha "jsstring option"

datatype GetOutcome = GetThrows | GetResponse bool JsonSha

datatype TextOutcome = TextThrows "jsstring option" | TextBody jsstring "jsstring option"

datatype PutOutcome = PutThrows "jsstring option" | PutResponse bool nat TextOutcome

text \<open>The JSON body of the PUT: \<^verbatim>\<open>message\<close>, \<^verbatim>\<open>content\<close> and, when set, \<^verbatim>\<open>sha\<close>.\<close>

datatype PutBody = PutBody jsstring jsstring "jsstring option"

datatype Request = GET jsstring | PUT jsstring PutBody

record Http =
  httpGet :: "jsstring \<Rightarrow> GetOutcome"
  httpPut :: "jsstring \<Rightarrow> PutBody \<Rightarrow> PutOutcome"

text \<open>The returned object \<^verbatim>\<open>{ success, message? }\<close>.\<close>

datatype UploadResult = UploadResult bool "jsstring option"

text \<open>A value is truthy unless it is undefined or the empty string.\<close>

definition truthy :: "jsstring option \<Rightarrow> bool" where
  "truthy v \<longleftrightarrow> (case v of None \<Rightarrow> False | Some x \<Rightarrow> x \<noteq> [])"

text \<open>Step 1: the GET that looks for the file's \<^verbatim>\<open>sha\<close>; every error is swallowed.\<close>

definition checkSha :: "GetOutcome \<Rightarrow> jsstring option" where
  "checkSha g =
     (case g of
        GetThrows \<Rightarrow> None
      | GetResponse ok json \<Rightarrow>
          if ok then (case json of JsonThrows \<Rightarrow> None | JsonSha v \<Rightarrow> v) else None)"

text \<open>Step 2: \<^verbatim>\<open>btoa(unescape(encodeURIComponent(content)))\<close>, outside every \<^verbatim>\<open>try\<close>.\<close>

definition base64Content :: "jsstring \<Rightarrow> JsError + jsstring" where
  "base64Content cont =
     (case encodeURIComponent cont of Inl e \<Rightarrow> Inl e | Inr enc \<Rightarrow> btoa (unescape enc))"

text \<open>Step 3: what the \<^verbatim>\<open>try\<close> around the PUT returns; its \<^verbatim>\<open>catch\<close> is the first case.\<close>

definition putResult :: "PutOutcome \<Rightarrow> UploadResult" where
  "putResult p =
     (case p of
        PutThrows m \<Rightarrow> UploadResult False (Some (if truthy m then the m else js ''Network error''))
      | PutResponse ok code body \<Rightarrow>
          if \<not> ok then
            (case body of
               TextThrows m \<Rightarrow>
                 UploadResult False (Some (if truthy m then the m else js ''Network error''))
             | TextBody errText parsed \<Rightarrow>
                 UploadResult False
                   (Some (if truthy parsed then the parsed else js ''HTTP '' @ numberToString code)))
          else UploadResult True None)"

text \<open>
  The function returns the requests it has sent and its result: \<open>Inl\<close> when it throws
  (the promise is rejected), \<open>Inr\<close> the returned object.
\<close>

text \<open>
  \<^verbatim>\<open>const url = `https://api.github.com/repos/${config.owner}/${config.repo}/contents/${encodedPath}`;\<close>
\<close>

definition contentsUrl :: "GitHubConfig \<Rightarrow> jsstring \<Rightarrow> jsstring" where
  "contentsUrl config path =
     js ''https://api.github.com/repos/'' @ owner config @ js ''/'' @ repo config @
     js ''/contents/'' @ path"

definition uploadFileToGitHub ::
  "Http \<Rightarrow> GitHubConfig \<Rightarrow> jsstring \<Rightarrow> jsstring \<Rightarrow> jsstring \<Rightarrow> Request list \<times> (JsError + UploadResult)"
  where
  "uploadFileToGitHub http config fname cont commitMessage =
     (case encodedPath (rawPath config fname) of
        Inl e \<Rightarrow> ([], Inl e)
      | Inr path \<Rightarrow>
          let url = contentsUrl config path;
              sha = checkSha (httpGet http url)
          in (case base64Content cont of
                Inl e \<Rightarrow> ([GET url], Inl e)
              | Inr b64 \<Rightarrow>
                  let body = PutBody commitMessage b64 (if truthy sha then sha else None)
                  in ([GET url, PUT url body], Inr (putResult (httpPut http url body)))))"

section \<open>The crawl controller (App.tsx)\<close>

record App =
  config :: GitHubConfig
  appState :: AppState
  logs :: "LogEntry list"
  novel :: "NovelMetadata option"
  chapters :: "Chapter list"
  crawlingActive :: bool
  progress :: rat
  isMounted :: bool

text \<open>
  The progress is \<^verbatim>\<open>(completed / chapters.length) * 100\<close>; the model computes it as an
  exact fraction and leaves the rounding of the two floating-point operations out.
\<close>

definition addLog :: "jsstring \<Rightarrow> LogLevel \<Rightarrow> App \<Rightarrow> App" where
  "addLog msg lvl s = s\<lparr>logs := logs s @ [LogEntry lvl msg]\<rparr>"

text \<open>The queue that \<^verbatim>\<open>handleSearch\<close> builds from the chapter titles of the metadata.\<close>

definition initChapters :: "jsstring list \<Rightarrow> Chapter list" where
  "initChapters titles =
     map (\<lambda>(idx, t). \<lparr>id' = idx + 1, title = t, status = Pending, content = None\<rparr>)
       (enumerate 0 titles)"

definition startCrawling :: "App \<Rightarrow> App" where
  "startCrawling s =
     (if novel s = None \<or> chapters s = [] then s
      else addLog (js ''Starting batch crawl process...'') INFO
             (s\<lparr>appState := AppCrawling, crawlingActive := True\<rparr>))"

definition stopCrawling :: "App \<Rightarrow> App" where
  "stopCrawling s = addLog (js ''Crawling paused by user.'') WARNING (s\<lparr>crawlingActive := False\<rparr>)"

text \<open>
  The crawler effect runs after a render in which \<^verbatim>\<open>crawlingActive\<close>, \<^verbatim>\<open>chapters\<close>,
  \<^verbatim>\<open>config\<close> or \<^verbatim>\<open>novel\<close> changed. Unless it returns at once, it defines
  \<^verbatim>\<open>processNextChapter\<close> and starts a 500 ms timer for it. The function is a closure: the
  \<^verbatim>\<open>chapters\<close>, \<^verbatim>\<open>novel\<close>, \<^verbatim>\<open>config\<close> and \<^verbatim>\<open>crawlingActive\<close> it reads are those of
  the render that created it, whenever it runs.
\<close>

record Closure =
  c_chapters :: "Chapter list"
  c_novel :: "NovelMetadata option"
  c_config :: GitHubConfig
  c_crawlingActive :: bool

definition crawlerEffect :: "App \<Rightarrow> Closure option" where
  "crawlerEffect s =
     (if \<not> crawlingActive s \<or> appState s \<noteq> AppCrawling then None
      else Some \<lparr>c_chapters = chapters s, c_novel = novel s, c_config = config s,
                 c_crawlingActive = crawlingActive s\<rparr>)"

text \<open>\<^verbatim>\<open>findIndex\<close>, with \<open>None\<close> for -1.\<close>

fun findIndex :: "('a \<Rightarrow> bool) \<Rightarrow> 'a list \<Rightarrow> nat option" where
  "findIndex P [] = None"
| "findIndex P (x # xs) =
     (if P x then Some 0 else (case findIndex P xs of None \<Rightarrow> None | Some i \<Rightarrow> Some (Suc i)))"

text \<open>
  The three state updates \<^verbatim>\<open>setChapters(prev => { const next = [...prev];
  next[chapterIndex] = { ...next[chapterIndex], status: ... }; return next; })\<close>. They are
  applied to the current queue \<open>prev\<close>, whatever it is when the update runs. For an index
  inside \<open>prev\<close> this is a list update. (For an index outside \<open>prev\<close> the code would extend
  the array; in a crawl session no index is outside the queue, see \<open>inRange\<close> below,
  and the properties that depend on the index state that it is in range.)
\<close>

definition markCrawling :: "nat \<Rightarrow> Chapter list \<Rightarrow> Chapter list" where
  "markCrawling i prev = prev[i := (prev ! i)\<lparr>status := Crawling\<rparr>]"

definition markSuccess :: "nat \<Rightarrow> jsstring \<Rightarrow> Chapter list \<Rightarrow> Chapter list" where
  "markSuccess i cont prev = prev[i := (prev ! i)\<lparr>status := Success, content := Some cont\<rparr>]"

definition markError :: "nat \<Rightarrow> Chapter list \<Rightarrow> Chapter list" where
  "markError i prev = prev[i := (prev ! i)\<lparr>status := Error\<rparr>]"

definition isTerminal :: "Chapter \<Rightarrow> bool" where
  "isTerminal c \<longleftrightarrow> status c = Success \<or> status c = Error"

text \<open>
  How a call of \<^verbatim>\<open>processNextChapter\<close> ends: it returns, it returns after starting the
  2000 ms timer that calls the same closure again (line 207), or it throws.
\<close>

datatype TickOutcome = Returned | Rescheduled | Raised JsError

text \<open>Lines 133 to 154: the selection, up to the call of the provider.\<close>

definition tickStart :: "Closure \<Rightarrow> App \<Rightarrow> App \<times> nat option" where
  "tickStart cl s =
     (if \<not> isMounted s then (s, None)
      else (case findIndex (\<lambda>c. status c = Pending) (c_chapters cl) of
              None \<Rightarrow>
                ((addLog (js ''All scheduled chapters processed.'') SUCCESS s)
                   \<lparr>crawlingActive := False, appState := AppFinished\<rparr>, None)
            | Some i \<Rightarrow>
                (addLog (js ''Fetching content: '' @ title (c_chapters cl ! i)) INFO
                   (s\<lparr>chapters := markCrawling i (chapters s)\<rparr>), Some i)))"

text \<open>Lines 162 to 181: after the provider's answer, up to the call of the store.\<close>

definition tickUpload :: "NovelMetadata \<Rightarrow> Chapter \<Rightarrow> App \<Rightarrow> App \<times> (jsstring \<times> jsstring) option"
  where
  "tickUpload nv ch s =
     (if \<not> isMounted s then (s, None)
      else (addLog (js ''Uploading to GitHub: '' @ title ch) INFO s,
            Some (fileName (title' nv) ch, js ''Add '' @ title ch @ js '' to '' @ title' nv)))"

text \<open>Lines 184 to 209: after the store's answer.\<close>

definition showMessage :: "jsstring option \<Rightarrow> jsstring" where
  "showMessage m = (case m of None \<Rightarrow> js ''undefined'' | Some x \<Rightarrow> x)"

definition tickFinish ::
  "Closure \<Rightarrow> nat \<Rightarrow> Chapter \<Rightarrow> jsstring \<Rightarrow> UploadResult \<Rightarrow> App \<Rightarrow> App \<times> TickOutcome" where
  "tickFinish cl i ch cont res s =
     (if \<not> isMounted s then (s, Returned)
      else
        let s1 = (case res of
                    UploadResult ok m \<Rightarrow>
                      if ok
                      then addLog (js ''Saved '' @ title ch @ js '' successfully.'') SUCCESS
                             (s\<lparr>chapters := markSuccess i cont (chapters s)\<rparr>)
                      else addLog (js ''Failed to save '' @ title ch @ js '': '' @ showMessage m)
                             ERROR (s\<lparr>chapters := markError i (chapters s)\<rparr>));
            completed = length (filter isTerminal (c_chapters cl)) + 1;
            s2 = s1\<lparr>progress := of_nat completed / of_nat (length (c_chapters cl)) * 100\<rparr>
        in (s2, if c_crawlingActive cl then Rescheduled else Returned))"

text \<open>
  One call of \<^verbatim>\<open>processNextChapter\<close> during whose two \<^verbatim>\<open>await\<close>s nothing else
  happens: no other call, no click, no unmount. The environment is the provider and the
  network. The calls of a session in general are the events of the next subsection.
\<close>

record Env =
  provider :: "jsstring \<Rightarrow> jsstring \<Rightarrow> ProviderOutcome"
  network :: Http

definition processNextChapter :: "Env \<Rightarrow> Closure \<Rightarrow> App \<Rightarrow> App \<times> TickOutcome" where
  "processNextChapter env cl s =
     (case tickStart cl s of
        (s1, None) \<Rightarrow> (s1, Returned)
      | (s1, Some i) \<Rightarrow>
          (case c_novel cl of
             None \<Rightarrow> (s1, Raised TypeError)
           | Some nv \<Rightarrow>
               let ch = c_chapters cl ! i in
               (case fetchChapterContent (provider env) (title' nv) (title ch) of
                  Inl e \<Rightarrow> (s1, Raised e)
                | Inr cont \<Rightarrow>
                    (case tickUpload nv ch s1 of
                       (s2, None) \<Rightarrow> (s2, Returned)
                     | (s2, Some (fname, msg)) \<Rightarrow>
                         (case snd (uploadFileToGitHub (network env) (c_config cl) fname cont msg) of
                            Inl e \<Rightarrow> (s2, Raised e)
                          | Inr res \<Rightarrow> tickFinish cl i ch cont res s2)))))"

definition terminalCount :: "Chapter list \<Rightarrow> nat" where
  "terminalCount q = length (filter isTerminal q)"

subsection \<open>The events of a crawl session\<close>

text \<open>
  A call of \<^verbatim>\<open>processNextChapter\<close> runs in three synchronous stretches, separated by
  \<^verbatim>\<open>await fetchChapterContent(...)\<close> (line 157) and \<^verbatim>\<open>await uploadFileToGitHub(...)\<close>
  (line 176). While it waits, timers fire, other calls run and the user clicks; each
  stretch reads the React state as it is when the stretch runs (\<^verbatim>\<open>setChapters\<close> and
  \<^verbatim>\<open>addLog\<close> are functional updates, \<^verbatim>\<open>isMountedRef\<close> is a ref) and the variables of
  its closure as they were when the closure was created. A waiting call is its closure
  with its local variables \<^verbatim>\<open>chapterIndex\<close> and \<^verbatim>\<open>chapter\<close> and, once it has them,
  \<^verbatim>\<open>content\<close>, \<^verbatim>\<open>fileName\<close> and the commit message.
\<close>

datatype Call =
  AwaitFetch Closure nat Chapter
| AwaitUpload Closure nat Chapter jsstring jsstring jsstring

text \<open>
  The session: the React state; the 500 ms timer of the latest run of the effect, with
  the closure it will call, until it fires or the effect's cleanup clears it; the 2000 ms
  timers started at line 207; the waiting calls; and the requests sent to the store.

  A timer of line 207 is started by a call after its second \<^verbatim>\<open>await\<close>. The call itself
  has run \<^verbatim>\<open>setChapters\<close> before its first \<^verbatim>\<open>await\<close>, so React has rendered in between and
  the cleanup of the effect that created the closure has already run: it has cleared the
  \<^verbatim>\<open>timer\<close> of that time, and nothing clears the new one.
\<close>

record Sys =
  app :: App
  effectTimer :: "Closure option"
  staleTimers :: "Closure list"
  calls :: "Call list"
  sent :: "Request list"

definition session :: "App \<Rightarrow> Sys" where
  "session s = \<lparr>app = s, effectTimer = None, staleTimers = [], calls = [], sent = []\<rparr>"

text \<open>
  React renders after the state updates of a synchronous stretch. The dependencies of the
  crawler effect are \<^verbatim>\<open>[crawlingActive, chapters, config, novel]\<close>; \<^verbatim>\<open>chapters\<close> is a new
  array whenever \<^verbatim>\<open>setChapters\<close> has run. When a dependency has changed, the cleanup of
  the previous run clears its timer and the effect runs again for the new state.
\<close>

definition render :: "bool \<Rightarrow> App \<Rightarrow> Sys \<Rightarrow> Sys" where
  "render setChaptersRan s' sys =
     (if setChaptersRan \<or> crawlingActive s' \<noteq> crawlingActive (app sys) \<or>
         config s' \<noteq> config (app sys) \<or> novel s' \<noteq> novel (app sys)
      then sys\<lparr>app := s', effectTimer := crawlerEffect s'\<rparr>
      else sys\<lparr>app := s'\<rparr>)"

text \<open>
  A timer calls \<^verbatim>\<open>processNextChapter\<close>: the first stretch, lines 133 to 157. With no
  novel in the closure, \<^verbatim>\<open>novel!.title\<close> throws and the call is over.
\<close>

definition startCall :: "Closure \<Rightarrow> Sys \<Rightarrow> Sys" where
  "startCall cl sys =
     (case tickStart cl (app sys) of
        (s1, None) \<Rightarrow> render False s1 sys
      | (s1, Some i) \<Rightarrow>
          (case c_novel cl of
             None \<Rightarrow> render True s1 sys
           | Some nv \<Rightarrow>
               (render True s1 sys)\<lparr>calls := calls sys @ [AwaitFetch cl i (c_chapters cl ! i)]\<rparr>))"

definition dropNth :: "nat \<Rightarrow> 'a list \<Rightarrow> 'a list" where
  "dropNth k xs = take k xs @ drop (Suc k) xs"

text \<open>The provider has answered the call at position \<open>k\<close>: the second stretch, lines 157 to 176.\<close>

definition afterFetch ::
  "nat \<Rightarrow> (jsstring \<Rightarrow> jsstring \<Rightarrow> ProviderOutcome) \<Rightarrow> Closure \<Rightarrow> nat \<Rightarrow> Chapter \<Rightarrow> Sys \<Rightarrow> Sys"
  where
  "afterFetch k prov cl i ch sys =
     (case c_novel cl of
        None \<Rightarrow> sys\<lparr>calls := dropNth k (calls sys)\<rparr>
      | Some nv \<Rightarrow>
          (case fetchChapterContent prov (title' nv) (title ch) of
             Inl e \<Rightarrow> sys\<lparr>calls := dropNth k (calls sys)\<rparr>
           | Inr cont \<Rightarrow>
               (case tickUpload nv ch (app sys) of
                  (s2, None) \<Rightarrow> sys\<lparr>app := s2, calls := dropNth k (calls sys)\<rparr>
                | (s2, Some (fname, msg)) \<Rightarrow>
                    sys\<lparr>app := s2, calls := (calls sys)[k := AwaitUpload cl i ch cont fname msg]\<rparr>)))"

text \<open>
  The store has answered the call at position \<open>k\<close>: the requests of
  \<^verbatim>\<open>uploadFileToGitHub\<close> have been sent, and the third stretch runs, lines 176 to 209.
\<close>

definition afterUpload ::
  "nat \<Rightarrow> Http \<Rightarrow> Closure \<Rightarrow> nat \<Rightarrow> Chapter \<Rightarrow> jsstring \<Rightarrow> jsstring \<Rightarrow> jsstring \<Rightarrow> Sys \<Rightarrow> Sys"
  where
  "afterUpload k http cl i ch cont fname msg sys =
     (case uploadFileToGitHub http (c_config cl) fname cont msg of
        (reqs, Inl e) \<Rightarrow> sys\<lparr>calls := dropNth k (calls sys), sent := sent sys @ reqs\<rparr>
      | (reqs, Inr res) \<Rightarrow>
          (case tickFinish cl i ch cont res (app sys) of
             (s3, out) \<Rightarrow>
               (render (isMounted (app sys)) s3 sys)
                 \<lparr>calls := dropNth k (calls sys), sent := sent sys @ reqs,
                  staleTimers := (if out = Rescheduled then staleTimers sys @ [cl]
                                  else staleTimers sys)\<rparr>))"

text \<open>
  The events: the user clicks Start (the button is there in the state \<open>AppPreview\<close>) or
  Pause (in the state \<open>AppCrawling\<close>), the component is unmounted, the timer of the effect
  fires, a timer of line 207 fires, the provider or the store answers a waiting call. An
  event that cannot happen in the state leaves it as it is. The Config button and a new
  search are not events of a crawl session.
\<close>

datatype Event =
  ClickStart
| ClickPause
| Unmount
| EffectTimer
| Line207Timer nat
| ProviderAnswers nat "jsstring \<Rightarrow> jsstring \<Rightarrow> ProviderOutcome"
| StoreAnswers nat Http

fun step :: "Event \<Rightarrow> Sys \<Rightarrow> Sys" where
  "step ClickStart sys =
     (if isMounted (app sys) \<and> appState (app sys) = AppPreview
      then render False (startCrawling (app sys)) sys else sys)"
| "step ClickPause sys =
     (if isMounted (app sys) \<and> appState (app sys) = AppCrawling
      then render False (stopCrawling (app sys)) sys else sys)"
| "step Unmount sys = sys\<lparr>app := (app sys)\<lparr>isMounted := False\<rparr>, effectTimer := None\<rparr>"
| "step EffectTimer sys =
     (case effectTimer sys of
        None \<Rightarrow> sys
      | Some cl \<Rightarrow> startCall cl (sys\<lparr>effectTimer := None\<rparr>))"
| "step (Line207Timer k) sys =
     (if k < length (staleTimers sys)
      then startCall (staleTimers sys ! k) (sys\<lparr>staleTimers := dropNth k (staleTimers sys)\<rparr>)
      else sys)"
| "step (ProviderAnswers k prov) sys =
     (if k < length (calls sys)
      then (case calls sys ! k of
              AwaitFetch cl i ch \<Rightarrow> afterFetch k prov cl i ch sys
            | AwaitUpload cl i ch cont fname msg \<Rightarrow> sys)
      else sys)"
| "step (StoreAnswers k http) sys =
     (if k < length (calls sys)
      then (case calls sys ! k of
              AwaitFetch cl i ch \<Rightarrow> sys
            | AwaitUpload cl i ch cont fname msg \<Rightarrow> afterUpload k http cl i ch cont fname msg sys)
      else sys)"

fun run :: "Event list \<Rightarrow> Sys \<Rightarrow> Sys" where
  "run [] sys = sys"
| "run (e # es) sys = run es (step e sys)"



text \<open>
  In a crawl session every index is inside the queue: the closures and the waiting calls
  hold queues of the current length and indexes below it. So the three updates of the
  queue above write in range, as a list update does.
\<close>

fun callInRange :: "nat \<Rightarrow> Call \<Rightarrow> bool" where
  "callInRange n (AwaitFetch cl i ch) = (i < n \<and> length (c_chapters cl) = n)"
| "callInRange n (AwaitUpload cl i ch cont fname msg) = (i < n \<and> length (c_chapters cl) = n)"

definition inRange :: "Sys \<Rightarrow> bool" where
  "inRange sys \<longleftrightarrow>
     (case effectTimer sys of None \<Rightarrow> True
      | Some cl \<Rightarrow> length (c_chapters cl) = length (chapters (app sys))) \<and>
     list_all (\<lambda>cl. length (c_chapters cl) = length (chapters (app sys))) (staleTimers sys) \<and>
     list_all (callInRange (length (chapters (app sys)))) (calls sys)"

subsection \<open>A session with two chapters\<close>

text \<open>
  A novel with two chapters after its search, a provider and a store that succeed, a
  provider and a store that fail, and the closure the effect creates when the crawl of
  this session starts.
\<close>

definition demoNovel :: NovelMetadata where
  "demoNovel =
     \<lparr>title' = js ''N'', author = js ''A'', description = [], totalChaptersEstimate = 2,
      chapters' = [js ''Ch1'', js ''Ch2''], sources = None\<rparr>"

definition demoApp :: App where
  "demoApp =
     \<lparr>config = DEFAULT_CONFIG, appState = AppPreview, logs = [], novel = Some demoNovel,
      chapters = initChapters (chapters' demoNovel), crawlingActive = False, progress = 0,
      isMounted = True\<rparr>"

definition okEnv :: Env where
  "okEnv =
     \<lparr>provider = (\<lambda>nt ct. ProviderResponse (Some (js ''# '' @ ct)) []),
      network = \<lparr>httpGet = (\<lambda>url. GetResponse False JsonThrows),
                 httpPut = (\<lambda>url body. PutResponse True 201 (TextBody [] None))\<rparr>\<rparr>"

definition failEnv :: Env where
  "failEnv =
     \<lparr>provider = (\<lambda>nt ct. ProviderThrows (js ''quota'')),
      network = \<lparr>httpGet = (\<lambda>url. GetResponse True (JsonSha (Some (js ''abc'')))),
                 httpPut = (\<lambda>url body. PutResponse False 422 (TextBody (js ''{}'') None))\<rparr>\<rparr>"

definition demoClosure :: Closure where
  "demoClosure =
     \<lparr>c_chapters = initChapters (chapters' demoNovel), c_novel = Some demoNovel,
      c_config = DEFAULT_CONFIG, c_crawlingActive = True\<rparr>"

definition demoStart :: App where
  "demoStart = startCrawling demoApp"

definition demoAfter1 :: App where
  "demoAfter1 = fst (processNextChapter okEnv demoClosure demoStart)"

text \<open>
  The session of the two chapters: as the search leaves it; after the click on Start;
  when the first call waits for the provider, and for the store; after the first call has
  saved chapter 1; after the user has then clicked Pause; and after both chapters are
  saved and the next call has found nothing pending.
\<close>

definition demoSys :: Sys where
  "demoSys = session demoApp"

definition demoStarted :: Sys where
  "demoStarted = step ClickStart demoSys"

definition demoFetching :: Sys where
  "demoFetching = step EffectTimer demoStarted"

definition demoWaiting :: Sys where
  "demoWaiting = run [ClickStart, EffectTimer, ProviderAnswers 0 (provider okEnv)] demoSys"


definition demoPaused :: Sys where
  "demoPaused =
     run [ClickStart, EffectTimer, ProviderAnswers 0 (provider okEnv),
          StoreAnswers 0 (network okEnv), ClickPause] demoSys"

definition demoFinished :: Sys where
  "demoFinished =
     run [ClickStart, EffectTimer, ProviderAnswers 0 (provider okEnv),
          StoreAnswers 0 (network okEnv), EffectTimer, ProviderAnswers 0 (provider okEnv),
          StoreAnswers 0 (network okEnv), EffectTimer] demoSys"


text \<open>
  A store in which the path names a directory (the answer to the GET is a list, without
  \<^verbatim>\<open>sha\<close>), and the URL of the file \<open>a.md\<close> under the default configuration.
\<close>

definition dirHttp :: Http where
  "dirHttp =
     \<lparr>httpGet = (\<lambda>url. GetResponse True (JsonSha None)),
      httpPut = (\<lambda>url body. PutResponse True 200 (TextBody [] None))\<rparr>"

definition demoUrl :: jsstring where
  "demoUrl = js ''https://api.github.com/repos/liquanlianshi/novels/contents/novels/my-novels/a.md''"

section \<open>Properties of sanitize and of the file name\<close>

lemma replicate_2: "replicate 2 x = [x, x]"
  by (simp add: numeral_2_eq_2)

lemma replaceUnsafe_clean: "c \<in> set (replaceUnsafe s) \<Longrightarrow> \<not> isUnsafe c"
  by (induction s rule: replaceUnsafe.induct) (auto simp: isUnsafe_def split: if_splits)

lemma replaceUnsafe_id: "\<forall>c \<in> set s. \<not> isUnsafe c \<Longrightarrow> replaceUnsafe s = s"
  by (induction s) auto

lemma removeCRLF_id: "\<forall>c \<in> set s. \<not> isCRLF c \<Longrightarrow> removeCRLF s = s"
  by (simp add: removeCRLF_def)

lemma set_trim: "set (trim s) \<subseteq> set s"
proof
  fix x assume "x \<in> set (trim s)"
  then have "x \<in> set (dropWhile isWhiteSpace (rev (dropWhile isWhiteSpace s)))"
    by (simp add: trim_def)
  then have "x \<in> set (dropWhile isWhiteSpace s)"
    using set_dropWhileD by fastforce
  then show "x \<in> set s"
    by (rule set_dropWhileD)
qed

lemma dropWhile_rev_dropWhile:
  assumes "dropWhile P y = y"
  shows "dropWhile P (rev (dropWhile P (rev y))) = rev (dropWhile P (rev y))"
proof (cases "rev (dropWhile P (rev y))")
  case Nil
  show ?thesis unfolding Nil by simp
next
  case (Cons a z)
  have "rev y = takeWhile P (rev y) @ dropWhile P (rev y)" by simp
  then have "y = rev (dropWhile P (rev y)) @ rev (takeWhile P (rev y))"
    by (metis rev_append rev_rev_ident)
  with Cons obtain w where "y = a # w" by simp
  with assms have "\<not> P a"
    by (metis dropWhile_eq_self_iff list.discI list.sel(1))
  with Cons show ?thesis by simp
qed

lemma trim_idem: "trim (trim s) = trim s"
  unfolding trim_def by (simp add: dropWhile_rev_dropWhile)

lemma sanitize_clean: "c \<in> set (sanitize s) \<Longrightarrow> \<not> isUnsafe c \<and> \<not> isCRLF c"
  unfolding sanitize_def
  using set_trim[of "removeCRLF (replaceUnsafe s)"] replaceUnsafe_clean[of c s]
  by (auto simp: removeCRLF_def)

text \<open>
  Claim C7. Sanitization is idempotent, and its output holds none of the characters
  \<open>< > : " / \ | ? *\<close>, no carriage return and no line feed.
\<close>

theorem sanitize_idempotent:
  "sanitize (sanitize s) = sanitize s \<and>
   filter (\<lambda>c. isUnsafe c \<or> c = 0xD \<or> c = 0xA) (sanitize s) = []"
proof
  have "replaceUnsafe (sanitize s) = sanitize s"
    by (rule replaceUnsafe_id) (simp add: sanitize_clean)
  moreover have "removeCRLF (sanitize s) = sanitize s"
    by (rule removeCRLF_id) (simp add: sanitize_clean)
  moreover have "trim (sanitize s) = sanitize s"
    by (simp add: sanitize_def trim_idem)
  ultimately show "sanitize (sanitize s) = sanitize s"
    by (simp add: sanitize_def[of "sanitize s"])
  show "filter (\<lambda>c. isUnsafe c \<or> c = 0xD \<or> c = 0xA) (sanitize s) = []"
    using sanitize_clean[of _ s] by (auto simp: filter_empty_conv isCRLF_def)
qed

lemma replaceUnsafe_run:
  assumes "r \<noteq> []" "\<forall>c \<in> set r. isUnsafe c" "b = [] \<or> \<not> isUnsafe (hd b)"
  shows "replaceUnsafe (r @ b) = 0x5F # replaceUnsafe b"
proof -
  from assms(1) obtain c r' where r: "r = c # r'" by (cases r) auto
  have "dropWhile isUnsafe (r' @ b) = dropWhile isUnsafe b"
    using assms(2) r by (simp add: dropWhile_append2)
  also have "\<dots> = b"
    using assms(3) by (cases b) auto
  finally show ?thesis using assms(2) r by simp
qed

lemma last_dropWhile: "dropWhile P xs \<noteq> [] \<Longrightarrow> last (dropWhile P xs) = last xs"
  by (induction xs) (auto split: if_splits)

lemma replaceUnsafe_append:
  "a = [] \<or> \<not> isUnsafe (last a) \<Longrightarrow>
   replaceUnsafe (a @ x) = replaceUnsafe a @ replaceUnsafe x"
proof (induction a rule: replaceUnsafe.induct)
  case 1
  then show ?case by simp
next
  case (2 c cs)
  show ?case
  proof (cases "isUnsafe c")
    case True
    with 2(3) have ne: "cs \<noteq> []" and l: "\<not> isUnsafe (last cs)" by (auto split: if_splits)
    then have "last cs \<in> set cs" by simp
    with l have dw: "dropWhile isUnsafe (cs @ x) = dropWhile isUnsafe cs @ x"
      by (metis dropWhile_append1)
    have "dropWhile isUnsafe cs \<noteq> []"
      using \<open>last cs \<in> set cs\<close> l by (auto simp: dropWhile_eq_Nil_conv)
    then have "\<not> isUnsafe (last (dropWhile isUnsafe cs))"
      using l by (simp add: last_dropWhile)
    with 2(1)[OF True] True dw show ?thesis by simp
  next
    case False
    with 2(3) have "cs = [] \<or> \<not> isUnsafe (last cs)" by (auto split: if_splits)
    with 2(2)[OF False] False show ?thesis by simp
  qed
qed

lemma sanitize_run:
  assumes "r \<noteq> []" "\<forall>c \<in> set r. isUnsafe c" "a = [] \<or> \<not> isUnsafe (last a)"
    "b = [] \<or> \<not> isUnsafe (hd b)"
  shows "sanitize (a @ r @ b) = sanitize (a @ [0x5F] @ b)"
proof -
  have u: "\<not> isUnsafe 0x5F" by (simp add: isUnsafe_def)
  have "replaceUnsafe (a @ r @ b) = replaceUnsafe a @ 0x5F # replaceUnsafe b"
    using assms by (simp add: replaceUnsafe_append replaceUnsafe_run)
  moreover have "replaceUnsafe (a @ [0x5F] @ b) = replaceUnsafe a @ 0x5F # replaceUnsafe b"
    using assms(3) u by (simp add: replaceUnsafe_append)
  ultimately show ?thesis by (simp add: sanitize_def)
qed

lemmas path_eval =
  DEFAULT_CONFIG_def rawPath_def fileName_def sanitize_def js_def trim_def removeCRLF_def
  isUnsafe_def isCRLF_def isWhiteSpace_def padStart_def digit_def stripLeadingSlash_def
  isSlash_def replicate_2 numberToString.simps

text \<open>
  Claim C1, as the claim states it, fails: the colon of \<open>Chapter 7: Awakening\<close> is not
  removed, it becomes an underscore, so the composed path is not the one the claim gives.
\<close>

theorem sanitize_strips_counterexample:
  "rawPath DEFAULT_CONFIG
     (fileName [0x6597, 0x7F57, 0x5927, 0x9646]
        \<lparr>id' = 7, title = js ''Chapter 7: Awakening'', status = Pending, content = None\<rparr>)
   \<noteq> js ''novels/my-novels/'' @ [0x6597, 0x7F57, 0x5927, 0x9646] @
     js ''/007_Chapter 7 Awakening.md''"
  by (simp add: path_eval)

text \<open>
  Claim C1, amended. Sanitization puts one underscore for every maximal run of the
  characters \<open>< > : " / \ | ? *\<close> (a run \<open>r\<close> between \<open>a\<close> and \<open>b\<close> behaves as a single
  underscore), and does nothing but delete CR and LF and trim white space to a string
  without these characters, so every other code unit, a Unicode letter included, is kept.
  For the novel title U+6597 U+7F57 U+5927 U+9646, the path prefix \<open>novels/my-novels/\<close>,
  the chapter id 7 and the chapter title \<open>Chapter 7: Awakening\<close> the composed path is
  \<open>novels/my-novels/<title>/007_Chapter 7_ Awakening.md\<close>.
\<close>

theorem sanitize_underscore_path:
  "(r \<noteq> [] \<and> list_all isUnsafe r \<and> (a = [] \<or> \<not> isUnsafe (last a)) \<and>
    (b = [] \<or> \<not> isUnsafe (hd b)) \<longrightarrow>
      sanitize (a @ r @ b) = sanitize (a @ [0x5F] @ b)) \<and>
   (list_all (\<lambda>c. \<not> isUnsafe c) s \<longrightarrow> sanitize s = trim (removeCRLF s)) \<and>
   rawPath \<lparr>token = tk, owner = ow, repo = rp, pathPrefix = js ''novels/my-novels/''\<rparr>
     (fileName [0x6597, 0x7F57, 0x5927, 0x9646]
        \<lparr>id' = 7, title = js ''Chapter 7: Awakening'', status = st, content = ct\<rparr>)
   = js ''novels/my-novels/'' @ [0x6597, 0x7F57, 0x5927, 0x9646] @
     js ''/007_Chapter 7_ Awakening.md''"
proof (intro conjI impI)
  assume "r \<noteq> [] \<and> list_all isUnsafe r \<and> (a = [] \<or> \<not> isUnsafe (last a)) \<and>
    (b = [] \<or> \<not> isUnsafe (hd b))"
  then show "sanitize (a @ r @ b) = sanitize (a @ [0x5F] @ b)"
    by (intro sanitize_run) (simp_all add: list_all_iff)
next
  assume "list_all (\<lambda>c. \<not> isUnsafe c) s"
  then show "sanitize s = trim (removeCRLF s)"
    by (simp add: sanitize_def replaceUnsafe_id list_all_iff)
next
  show "rawPath \<lparr>token = tk, owner = ow, repo = rp, pathPrefix = js ''novels/my-novels/''\<rparr>
     (fileName [0x6597, 0x7F57, 0x5927, 0x9646]
        \<lparr>id' = 7, title = js ''Chapter 7: Awakening'', status = st, content = ct\<rparr>)
   = js ''novels/my-novels/'' @ [0x6597, 0x7F57, 0x5927, 0x9646] @
     js ''/007_Chapter 7_ Awakening.md''"
    by (simp add: path_eval)
qed

theorem sanitize_underscore_path_witness:
  "sanitize (js ''Chapter 7'' @ js '':'' @ js '' Awakening'') = js ''Chapter 7_ Awakening'' \<and>
   sanitize ([0x20, 0x6597, 0x7F57, 0xD, 0xA, 0x5927, 0x9646, 0x20]) =
     [0x6597, 0x7F57, 0x5927, 0x9646]"
  using sanitize_underscore_path
    [of "js '':''" "js ''Chapter 7''" "js '' Awakening''"
      "[0x20, 0x6597, 0x7F57, 0xD, 0xA, 0x5927, 0x9646, 0x20]"]
  by (simp add: js_def isUnsafe_def trim_def removeCRLF_def isCRLF_def isWhiteSpace_def
      sanitize_def)


section \<open>The session of the two chapters, evaluated\<close>

lemmas demo_eval =
  demoNovel_def demoApp_def okEnv_def failEnv_def demoClosure_def initChapters_def
  startCrawling_def stopCrawling_def crawlerEffect_def addLog_def
  processNextChapter_def tickStart_def tickUpload_def tickFinish_def
  markCrawling_def markSuccess_def markError_def isTerminal_def showMessage_def
  fetchChapterContent_def fetchChapterContentTry_def
  uploadFileToGitHub_def contentsUrl_def path_eval encodedPath_def isUriUnescaped_def isAlnum_def
  isUriMark_def appendR_def base64Content_def btoa_def putResult_def checkSha_def truthy_def
  Let_def isLead_def isTrail_def utf8_def percentEncode_def hexDigit_def hexDigitValue_def
  base64Char_def terminalCount_def

lemmas event_eval =
  session_def render_def startCall_def afterFetch_def afterUpload_def dropNth_def demoSys_def

lemma demoClosure_eval:
  "findIndex (\<lambda>c. status c = Pending) (c_chapters demoClosure) = Some 0 \<and>
   c_novel demoClosure = Some demoNovel \<and> c_crawlingActive demoClosure \<and>
   map status (c_chapters demoClosure) = [Pending, Pending]"
  by (simp add: demoClosure_def demoNovel_def initChapters_def)


lemma demoFetching_eval:
  "calls demoFetching = [AwaitFetch demoClosure 0 (c_chapters demoClosure ! 0)] \<and>
   isMounted (app demoFetching) \<and> sent demoFetching = [] \<and>
   calls (step Unmount demoFetching) = [AwaitFetch demoClosure 0 (c_chapters demoClosure ! 0)] \<and>
   \<not> isMounted (app (step Unmount demoFetching)) \<and> sent (step Unmount demoFetching) = []"
  by (simp add: demoFetching_def demoStarted_def event_eval demo_eval)

lemma demoWaiting_eval:
  "calls demoWaiting =
     [AwaitUpload demoClosure 0 (c_chapters demoClosure ! 0) (js ''# Ch1'')
        (fileName (js ''N'') (c_chapters demoClosure ! 0)) (js ''Add Ch1 to N'')] \<and>
   isMounted (app demoWaiting) \<and> progress (app demoWaiting) = 0 \<and>
   map status (chapters (app demoWaiting)) = [Crawling, Pending] \<and>
   sent demoWaiting = [] \<and> staleTimers demoWaiting = []"
  by (simp add: demoWaiting_def event_eval demo_eval)


lemma demoPaused_eval:
  "map status (chapters (app demoPaused)) = [Success, Pending] \<and>
   \<not> crawlingActive (app demoPaused) \<and> appState (app demoPaused) = AppCrawling \<and>
   isMounted (app demoPaused) \<and>
   effectTimer demoPaused = None \<and> staleTimers demoPaused = [demoClosure] \<and>
   calls demoPaused = []"
  by (simp add: demoPaused_def event_eval demo_eval)

lemma demoFinished_eval:
  "map status (chapters (app demoFinished)) = [Success, Success] \<and>
   \<not> crawlingActive (app demoFinished) \<and> appState (app demoFinished) = AppFinished \<and>
   isMounted (app demoFinished) \<and> progress (app demoFinished) = 100 \<and>
   effectTimer demoFinished = None \<and> hd (staleTimers demoFinished) = demoClosure \<and>
   length (staleTimers demoFinished) = 2 \<and>
   calls demoFinished = []"
  by (simp add: demoFinished_def event_eval demo_eval)



section \<open>Properties of the provider client\<close>

lemma fetchChapterContent_Inr:
  "\<exists>cont. fetchChapterContent prov nt ct = Inr cont \<and> cont \<noteq> []"
  by (auto simp: fetchChapterContent_def fetchChapterContentTry_def js_def Let_def
      split: sum.splits ProviderOutcome.splits option.splits)

lemma fetchChapterContent_empty:
  "prov nt ct = ProviderResponse txt chunks \<Longrightarrow> \<not> truthy txt \<Longrightarrow>
   list_all (\<lambda>u. \<not> truthy u) chunks \<Longrightarrow>
   fetchChapterContent prov nt ct = Inr (js ''Error: No content generated.'')"
proof -
  assume p: "prov nt ct = ProviderResponse txt chunks" and t: "\<not> truthy txt"
    and c: "list_all (\<lambda>u. \<not> truthy u) chunks"
  have "concat (map (\<lambda>u. case u of Some uri \<Rightarrow> if uri \<noteq> [] then [uri] else []
                                | None \<Rightarrow> []) chunks) = []"
    using c by (induction chunks) (auto simp: truthy_def split: option.splits)
  with p t show ?thesis
    by (auto simp: fetchChapterContent_def fetchChapterContentTry_def truthy_def Let_def
        split: option.splits)
qed

text \<open>
  Claim C5, as the claim states it, fails: when the provider answers without a text, or
  with an empty one, the result is \<open>Error: No content generated.\<close>, which is not the
  \<open>Error retrieving content\<close> string.
\<close>

theorem fetchChapterContent_placeholder_counterexample:
  "fetchChapterContent (\<lambda>nt ct. ProviderResponse None []) (js ''N'') (js ''Ch1'') =
     Inr (js ''Error: No content generated.'') \<and>
   fetchChapterContent (\<lambda>nt ct. ProviderResponse (Some []) []) (js ''N'') (js ''Ch1'') =
     Inr (js ''Error: No content generated.'') \<and>
   take 24 (js ''Error: No content generated.'') \<noteq> js ''Error retrieving content''"
  by (simp add: fetchChapterContent_def fetchChapterContentTry_def js_def)

text \<open>
  Claim C5, amended. \<^verbatim>\<open>fetchChapterContent\<close> never throws and its result is never empty.
  When the provider throws, the result is \<open>Error retrieving content for <chapter title>. \<close>,
  two line feeds, \<open>System Error: \<close> and the error; when the provider's text is undefined
  or empty, it is \<open>Error: No content generated.\<close>, followed by the sources when the
  answer has any. When the provider answers a waiting call and the component is mounted,
  the call goes on to the store with that content, the file name and the commit message;
  when the component is not mounted any more, the call ends and nothing is sent. When the
  store answers a waiting call, the requests of \<^verbatim>\<open>uploadFileToGitHub\<close> for its content
  have been sent.
\<close>

theorem fetchChapterContent_never_raises:
  "(\<exists>cont. fetchChapterContent prov nt ct = Inr cont \<and> cont \<noteq> []) \<and>
   (prov nt ct = ProviderThrows err \<longrightarrow>
      fetchChapterContent prov nt ct =
        Inr (js ''Error retrieving content for '' @ ct @ js ''. '' @ [0xA, 0xA] @
             js ''System Error: '' @ err)) \<and>
   (prov nt ct = ProviderResponse txt chunks \<and> \<not> truthy txt \<longrightarrow>
      (\<exists>footer. fetchChapterContent prov nt ct =
         Inr (js ''Error: No content generated.'' @ footer)) \<and>
      (list_all (\<lambda>u. \<not> truthy u) chunks \<longrightarrow>
         fetchChapterContent prov nt ct = Inr (js ''Error: No content generated.''))) \<and>
   (k < length (calls sys) \<and> calls sys ! k = AwaitFetch cl i ch \<and> c_novel cl = Some nv \<and>
    isMounted (app sys) \<longrightarrow>
      (\<exists>cont. fetchChapterContent prov' (title' nv) (title ch) = Inr cont \<and> cont \<noteq> [] \<and>
         calls (step (ProviderAnswers k prov') sys) =
           (calls sys)[k := AwaitUpload cl i ch cont (fileName (title' nv) ch)
                              (js ''Add '' @ title ch @ js '' to '' @ title' nv)])) \<and>
   (k < length (calls sys) \<and> calls sys ! k = AwaitFetch cl i ch \<and> \<not> isMounted (app sys) \<longrightarrow>
      calls (step (ProviderAnswers k prov') sys) = dropNth k (calls sys) \<and>
      sent (step (ProviderAnswers k prov') sys) = sent sys) \<and>
   (k < length (calls sys) \<and> calls sys ! k = AwaitUpload cl i ch cont' fname msg \<longrightarrow>
      sent (step (StoreAnswers k http) sys) =
        sent sys @ fst (uploadFileToGitHub http (c_config cl) fname cont' msg))"
proof (intro conjI impI)
  show "\<exists>cont. fetchChapterContent prov nt ct = Inr cont \<and> cont \<noteq> []"
    by (rule fetchChapterContent_Inr)
next
  assume "prov nt ct = ProviderThrows err"
  then show "fetchChapterContent prov nt ct =
        Inr (js ''Error retrieving content for '' @ ct @ js ''. '' @ [0xA, 0xA] @
             js ''System Error: '' @ err)"
    by (simp add: fetchChapterContent_def fetchChapterContentTry_def)
next
  assume a: "prov nt ct = ProviderResponse txt chunks \<and> \<not> truthy txt"
  then show "\<exists>footer. fetchChapterContent prov nt ct =
         Inr (js ''Error: No content generated.'' @ footer)"
    by (auto simp: fetchChapterContent_def fetchChapterContentTry_def truthy_def Let_def
        split: option.splits)
  assume "list_all (\<lambda>u. \<not> truthy u) chunks"
  with a show "fetchChapterContent prov nt ct = Inr (js ''Error: No content generated.'')"
    by (simp add: fetchChapterContent_empty)
next
  assume a: "k < length (calls sys) \<and> calls sys ! k = AwaitFetch cl i ch \<and> c_novel cl = Some nv \<and>
    isMounted (app sys)"
  obtain cont where c: "fetchChapterContent prov' (title' nv) (title ch) = Inr cont"
    and ne: "cont \<noteq> []"
    using fetchChapterContent_Inr by blast
  from a c have "calls (step (ProviderAnswers k prov') sys) =
           (calls sys)[k := AwaitUpload cl i ch cont (fileName (title' nv) ch)
                              (js ''Add '' @ title ch @ js '' to '' @ title' nv)]"
    by (simp add: afterFetch_def tickUpload_def)
  with c ne show "\<exists>cont. fetchChapterContent prov' (title' nv) (title ch) = Inr cont \<and> cont \<noteq> [] \<and>
         calls (step (ProviderAnswers k prov') sys) =
           (calls sys)[k := AwaitUpload cl i ch cont (fileName (title' nv) ch)
                              (js ''Add '' @ title ch @ js '' to '' @ title' nv)]"
    by blast
next
  assume a: "k < length (calls sys) \<and> calls sys ! k = AwaitFetch cl i ch \<and> \<not> isMounted (app sys)"
  then show "calls (step (ProviderAnswers k prov') sys) = dropNth k (calls sys)"
    by (auto simp: afterFetch_def tickUpload_def split: option.splits sum.splits)
  from a show "sent (step (ProviderAnswers k prov') sys) = sent sys"
    by (auto simp: afterFetch_def tickUpload_def split: option.splits sum.splits)
next
  assume a: "k < length (calls sys) \<and> calls sys ! k = AwaitUpload cl i ch cont' fname msg"
  then show "sent (step (StoreAnswers k http) sys) =
        sent sys @ fst (uploadFileToGitHub http (c_config cl) fname cont' msg)"
    by (auto simp: afterUpload_def render_def split: prod.splits sum.splits)
qed

theorem fetchChapterContent_never_raises_witness:
  "fetchChapterContent (provider failEnv) (js ''N'') (js ''Ch1'') =
     Inr (js ''Error retrieving content for Ch1. '' @ [0xA, 0xA] @ js ''System Error: quota'') \<and>
   fetchChapterContent (\<lambda>nt ct. ProviderResponse (Some []) [None, Some []]) (js ''N'') (js ''Ch1'') =
     Inr (js ''Error: No content generated.'') \<and>
   (\<exists>cont. fetchChapterContent (provider failEnv) (title' demoNovel)
            (title (c_chapters demoClosure ! 0)) = Inr cont \<and> cont \<noteq> [] \<and>
      calls (step (ProviderAnswers 0 (provider failEnv)) demoFetching) =
        (calls demoFetching)[0 := AwaitUpload demoClosure 0 (c_chapters demoClosure ! 0) cont
           (fileName (title' demoNovel) (c_chapters demoClosure ! 0))
           (js ''Add '' @ title (c_chapters demoClosure ! 0) @ js '' to '' @ title' demoNovel)]) \<and>
   calls (step (ProviderAnswers 0 (provider failEnv)) (step Unmount demoFetching)) =
     dropNth 0 (calls (step Unmount demoFetching)) \<and>
   sent (step (ProviderAnswers 0 (provider failEnv)) (step Unmount demoFetching)) =
     sent (step Unmount demoFetching) \<and>
   sent (step (StoreAnswers 0 (network okEnv)) demoWaiting) =
     sent demoWaiting @
     fst (uploadFileToGitHub (network okEnv) (c_config demoClosure)
            (fileName (js ''N'') (c_chapters demoClosure ! 0)) (js ''# Ch1'') (js ''Add Ch1 to N''))"
proof -
  let ?ch = "c_chapters demoClosure ! 0"
  let ?u = "step Unmount demoFetching"
  note A = fetchChapterContent_never_raises
    [of "provider failEnv" "js ''N''" "js ''Ch1''" "js ''quota''" None "[]"
      0 demoFetching demoClosure 0 ?ch demoNovel "provider failEnv"]
  note B = fetchChapterContent_never_raises
    [of "\<lambda>nt ct. ProviderResponse (Some []) [None, Some []]" "js ''N''" "js ''Ch1''" "[]"
      "Some []" "[None, Some []]" 0 ?u demoClosure 0 ?ch demoNovel "provider failEnv"]
  note C = fetchChapterContent_never_raises
    [of "provider failEnv" "js ''N''" "js ''Ch1''" "js ''quota''" None "[]"
      0 demoWaiting demoClosure 0 ?ch demoNovel "provider failEnv" "js ''# Ch1''"
      "fileName (js ''N'') ?ch" "js ''Add Ch1 to N''" "network okEnv"]
  have 1: "provider failEnv (js ''N'') (js ''Ch1'') = ProviderThrows (js ''quota'')"
    by (simp add: failEnv_def)
  have 2: "(\<lambda>nt ct. ProviderResponse (Some []) [None, Some []]) (js ''N'') (js ''Ch1'') =
      ProviderResponse (Some []) [None, Some []] \<and> \<not> truthy (Some [])"
    by (simp add: truthy_def)
  have 3: "list_all (\<lambda>u. \<not> truthy u) [None, Some []]"
    by (simp add: truthy_def)
  have 4: "0 < length (calls demoFetching) \<and> calls demoFetching ! 0 = AwaitFetch demoClosure 0 ?ch \<and>
      c_novel demoClosure = Some demoNovel \<and> isMounted (app demoFetching)"
    using demoFetching_eval demoClosure_eval by simp
  have 5: "0 < length (calls ?u) \<and> calls ?u ! 0 = AwaitFetch demoClosure 0 ?ch \<and>
      \<not> isMounted (app ?u)"
    using demoFetching_eval by simp
  have 6: "0 < length (calls demoWaiting) \<and>
      calls demoWaiting ! 0 = AwaitUpload demoClosure 0 ?ch (js ''# Ch1'')
        (fileName (js ''N'') ?ch) (js ''Add Ch1 to N'')"
    using demoWaiting_eval by simp
  from A 1 have "fetchChapterContent (provider failEnv) (js ''N'') (js ''Ch1'') =
      Inr (js ''Error retrieving content for '' @ js ''Ch1'' @ js ''. '' @ [0xA, 0xA] @
           js ''System Error: '' @ js ''quota'')"
    by blast
  then have c1: "fetchChapterContent (provider failEnv) (js ''N'') (js ''Ch1'') =
     Inr (js ''Error retrieving content for Ch1. '' @ [0xA, 0xA] @ js ''System Error: quota'')"
    by (simp add: js_def)
  from B 2 3 have c2:
    "fetchChapterContent (\<lambda>nt ct. ProviderResponse (Some []) [None, Some []]) (js ''N'') (js ''Ch1'') =
     Inr (js ''Error: No content generated.'')"
    by blast
  from A 4 have c3: "\<exists>cont. fetchChapterContent (provider failEnv) (title' demoNovel)
            (title ?ch) = Inr cont \<and> cont \<noteq> [] \<and>
      calls (step (ProviderAnswers 0 (provider failEnv)) demoFetching) =
        (calls demoFetching)[0 := AwaitUpload demoClosure 0 ?ch cont
           (fileName (title' demoNovel) ?ch)
           (js ''Add '' @ title ?ch @ js '' to '' @ title' demoNovel)]"
    by blast
  from B 5 have c4: "calls (step (ProviderAnswers 0 (provider failEnv)) ?u) = dropNth 0 (calls ?u)"
    "sent (step (ProviderAnswers 0 (provider failEnv)) ?u) = sent ?u"
    by blast+
  from C 6 have c5: "sent (step (StoreAnswers 0 (network okEnv)) demoWaiting) =
     sent demoWaiting @
     fst (uploadFileToGitHub (network okEnv) (c_config demoClosure)
            (fileName (js ''N'') ?ch) (js ''# Ch1'') (js ''Add Ch1 to N''))"
    by blast
  from c1 c2 c3 c4 c5 show ?thesis by blast
qed


section \<open>Properties of the crawl controller\<close>

lemma findIndex_Some:
  "findIndex P xs = Some i \<Longrightarrow> i < length xs \<and> P (xs ! i) \<and> (\<forall>j<i. \<not> P (xs ! j))"
proof (induction xs arbitrary: i)
  case Nil
  then show ?case by simp
next
  case (Cons x xs)
  show ?case
  proof (cases "P x")
    case True
    with Cons.prems show ?thesis by simp
  next
    case False
    with Cons.prems obtain k where k: "findIndex P xs = Some k" "i = Suc k"
      by (auto split: option.splits)
    from Cons.IH[OF k(1)] False k(2) show ?thesis
      by (auto simp: nth_Cons split: nat.splits)
  qed
qed

lemma findIndex_None: "findIndex P xs = None \<Longrightarrow> \<forall>x \<in> set xs. \<not> P x"
  by (induction xs) (auto split: if_splits option.splits)

lemma tickFinish_chapters:
  "isMounted s \<Longrightarrow>
   chapters (fst (tickFinish cl i ch cont (UploadResult ok m) s)) =
     (if ok then markSuccess i cont (chapters s) else markError i (chapters s))"
  by (simp add: tickFinish_def Let_def addLog_def)

text \<open>
  Claim C6. When the store's answer arrives (and the component is mounted): on success
  the selected chapter becomes \<open>Success\<close> and its content is the fetched content; on
  failure it becomes \<open>Error\<close>, its content is left as it was, and the failure message is
  appended to the log; its id and title and every other chapter stay as they were.
\<close>

theorem tickFinish_frame:
  "isMounted s \<and> i < length (chapters s) \<and>
   tickFinish cl i ch cont (UploadResult ok m) s = (s', out) \<longrightarrow>
     length (chapters s') = length (chapters s) \<and>
     (\<forall>j. j \<noteq> i \<longrightarrow> chapters s' ! j = chapters s ! j) \<and>
     id' (chapters s' ! i) = id' (chapters s ! i) \<and>
     title (chapters s' ! i) = title (chapters s ! i) \<and>
     (ok \<longrightarrow> status (chapters s' ! i) = Success \<and> content (chapters s' ! i) = Some cont \<and>
             logs s' = logs s @
               [LogEntry SUCCESS (js ''Saved '' @ title ch @ js '' successfully.'')]) \<and>
     (\<not> ok \<longrightarrow> status (chapters s' ! i) = Error \<and>
                content (chapters s' ! i) = content (chapters s ! i) \<and>
                logs s' = logs s @
                  [LogEntry ERROR (js ''Failed to save '' @ title ch @ js '': '' @ showMessage m)])"
proof (intro impI)
  assume a: "isMounted s \<and> i < length (chapters s) \<and>
    tickFinish cl i ch cont (UploadResult ok m) s = (s', out)"
  then have c: "chapters s' =
      (if ok then markSuccess i cont (chapters s) else markError i (chapters s))"
    using tickFinish_chapters[of s cl i ch cont ok m] by simp
  from a have l: "logs s' = logs s @
      [if ok then LogEntry SUCCESS (js ''Saved '' @ title ch @ js '' successfully.'')
       else LogEntry ERROR (js ''Failed to save '' @ title ch @ js '': '' @ showMessage m)]"
    by (auto simp: tickFinish_def Let_def addLog_def)
  from a c l show "length (chapters s') = length (chapters s) \<and>
     (\<forall>j. j \<noteq> i \<longrightarrow> chapters s' ! j = chapters s ! j) \<and>
     id' (chapters s' ! i) = id' (chapters s ! i) \<and>
     title (chapters s' ! i) = title (chapters s ! i) \<and>
     (ok \<longrightarrow> status (chapters s' ! i) = Success \<and> content (chapters s' ! i) = Some cont \<and>
             logs s' = logs s @
               [LogEntry SUCCESS (js ''Saved '' @ title ch @ js '' successfully.'')]) \<and>
     (\<not> ok \<longrightarrow> status (chapters s' ! i) = Error \<and>
                content (chapters s' ! i) = content (chapters s ! i) \<and>
                logs s' = logs s @
                  [LogEntry ERROR (js ''Failed to save '' @ title ch @ js '': '' @ showMessage m)])"
    by (simp add: markSuccess_def markError_def)
qed

theorem tickFinish_frame_witness:
  "status (chapters (fst (tickFinish demoClosure 0 (c_chapters demoClosure ! 0) (js ''# Ch1'')
      (UploadResult False (Some (js ''HTTP 422'')))
      (fst (tickStart demoClosure (startCrawling demoApp))))) ! 0) = Error \<and>
   content (chapters (fst (tickFinish demoClosure 0 (c_chapters demoClosure ! 0) (js ''# Ch1'')
      (UploadResult False (Some (js ''HTTP 422'')))
      (fst (tickStart demoClosure (startCrawling demoApp))))) ! 0) = None \<and>
   last (logs (fst (tickFinish demoClosure 0 (c_chapters demoClosure ! 0) (js ''# Ch1'')
      (UploadResult False (Some (js ''HTTP 422'')))
      (fst (tickStart demoClosure (startCrawling demoApp)))))) =
     LogEntry ERROR (js ''Failed to save Ch1: HTTP 422'') \<and>
   status (chapters (fst (tickFinish demoClosure 0 (c_chapters demoClosure ! 0) (js ''# Ch1'')
      (UploadResult True None)
      (fst (tickStart demoClosure (startCrawling demoApp))))) ! 0) = Success \<and>
   content (chapters (fst (tickFinish demoClosure 0 (c_chapters demoClosure ! 0) (js ''# Ch1'')
      (UploadResult True None)
      (fst (tickStart demoClosure (startCrawling demoApp))))) ! 0) = Some (js ''# Ch1'') \<and>
   chapters (fst (tickFinish demoClosure 0 (c_chapters demoClosure ! 0) (js ''# Ch1'')
      (UploadResult True None)
      (fst (tickStart demoClosure (startCrawling demoApp))))) ! 1 =
     \<lparr>id' = 2, title = js ''Ch2'', status = Pending, content = None\<rparr>"
proof -
  let ?s = "fst (tickStart demoClosure (startCrawling demoApp))"
  let ?ch = "c_chapters demoClosure ! 0"
  let ?f = "tickFinish demoClosure 0 ?ch (js ''# Ch1'') (UploadResult False (Some (js ''HTTP 422''))) ?s"
  let ?g = "tickFinish demoClosure 0 ?ch (js ''# Ch1'') (UploadResult True None) ?s"
  have h: "isMounted ?s \<and> 0 < length (chapters ?s)"
    by (simp add: demo_eval)
  have v: "content (chapters ?s ! 0) = None"
     "title ?ch = js ''Ch1''"
     "chapters ?s ! 1 = \<lparr>id' = 2, title = js ''Ch2'', status = Pending, content = None\<rparr>"
    by (simp_all add: demo_eval)
  from tickFinish_frame[of ?s 0 demoClosure ?ch "js ''# Ch1''" False "Some (js ''HTTP 422'')"
      "fst ?f" "snd ?f"] h
  have f: "status (chapters (fst ?f) ! 0) = Error"
    "content (chapters (fst ?f) ! 0) = content (chapters ?s ! 0)"
    "logs (fst ?f) = logs ?s @
       [LogEntry ERROR (js ''Failed to save '' @ title ?ch @ js '': '' @
          showMessage (Some (js ''HTTP 422'')))]"
    by simp_all
  from tickFinish_frame[of ?s 0 demoClosure ?ch "js ''# Ch1''" True None "fst ?g" "snd ?g"] h
  have g: "status (chapters (fst ?g) ! 0) = Success"
    "content (chapters (fst ?g) ! 0) = Some (js ''# Ch1'')"
    "chapters (fst ?g) ! 1 = chapters ?s ! 1"
    by simp_all
  from f g v show ?thesis
    by (simp add: showMessage_def js_def)
qed









lemma demoStart_eval:
  "crawlerEffect demoStart = Some demoClosure \<and> isMounted demoStart \<and>
   appState demoStart = AppCrawling \<and> crawlingActive demoStart \<and> progress demoStart = 0 \<and>
   chapters demoStart =
     [\<lparr>id' = 1, title = js ''Ch1'', status = Pending, content = None\<rparr>,
      \<lparr>id' = 2, title = js ''Ch2'', status = Pending, content = None\<rparr>] \<and>
   novel demoStart = Some demoNovel \<and> config demoStart = DEFAULT_CONFIG"
  by (simp add: demoStart_def demo_eval)

lemma demoTick1_eval:
  "snd (processNextChapter okEnv demoClosure demoStart) = Rescheduled \<and>
   chapters demoAfter1 =
     [\<lparr>id' = 1, title = js ''Ch1'', status = Success, content = Some (js ''# Ch1'')\<rparr>,
      \<lparr>id' = 2, title = js ''Ch2'', status = Pending, content = None\<rparr>] \<and>
   progress demoAfter1 = 50 \<and> isMounted demoAfter1 \<and> appState demoAfter1 = AppCrawling \<and>
   crawlingActive demoAfter1 \<and> novel demoAfter1 = Some demoNovel \<and>
   config demoAfter1 = DEFAULT_CONFIG"
  by (simp add: demoAfter1_def demoStart_def demo_eval)

text \<open>
  Claim C3, at a session with two chapters. The first call of \<^verbatim>\<open>processNextChapter\<close>
  saves chapter 1 and ends by starting the 2000 ms timer for itself (line 207). When that
  timer fires, the same closure runs again: the queue it reads is still the one of its
  render, where chapter 1 is pending, so it marks chapter 1 \<open>Crawling\<close> although it is
  \<open>Success\<close>, uploads it again, and starts the timer once more.
\<close>

theorem stale_closure_recrawls:
  "crawlerEffect demoStart = Some demoClosure \<and>
   processNextChapter okEnv demoClosure demoStart = (demoAfter1, Rescheduled) \<and>
   map status (chapters demoAfter1) = [Success, Pending] \<and>
   map status (chapters (fst (tickStart demoClosure demoAfter1))) = [Crawling, Pending] \<and>
   map status (chapters (fst (processNextChapter okEnv demoClosure demoAfter1)))
     = [Success, Pending] \<and>
   snd (processNextChapter okEnv demoClosure demoAfter1) = Rescheduled"
proof -
  have "processNextChapter okEnv demoClosure demoStart = (demoAfter1, Rescheduled)"
    using demoTick1_eval by (simp add: demoAfter1_def prod_eq_iff)
  moreover have "map status (chapters (fst (tickStart demoClosure demoAfter1))) = [Crawling, Pending]"
    using demoTick1_eval
    by (simp add: tickStart_def demoClosure_def demoNovel_def initChapters_def markCrawling_def
        addLog_def)
  moreover have "map status (chapters (fst (processNextChapter okEnv demoClosure demoAfter1)))
     = [Success, Pending] \<and> snd (processNextChapter okEnv demoClosure demoAfter1) = Rescheduled"
    using demoTick1_eval
    by (simp add: demo_eval)
  ultimately show ?thesis using demoStart_eval demoTick1_eval by simp
qed

theorem stale_closure_recrawls_witness:
  "map status (chapters demoAfter1) = [Success, Pending] \<and>
   map status (chapters (fst (tickStart demoClosure demoAfter1))) = [Crawling, Pending]"
  using stale_closure_recrawls by simp

subsection \<open>The events of a session\<close>




lemma crawlerEffect_logs [simp]: "crawlerEffect (addLog m l s) = crawlerEffect s"
  by (simp add: crawlerEffect_def addLog_def)

lemma crawlerEffect_tickUpload: "crawlerEffect (fst (tickUpload nv ch s)) = crawlerEffect s"
  by (simp add: tickUpload_def)

lemma isMounted_tickUpload: "isMounted (fst (tickUpload nv ch s)) = isMounted s"
  by (simp add: tickUpload_def addLog_def)









text \<open>Every index of a session is inside the queue.\<close>

lemma inRange_iff:
  "inRange sys \<longleftrightarrow>
     (\<forall>cl. effectTimer sys = Some cl \<longrightarrow> length (c_chapters cl) = length (chapters (app sys))) \<and>
     list_all (\<lambda>cl. length (c_chapters cl) = length (chapters (app sys))) (staleTimers sys) \<and>
     list_all (callInRange (length (chapters (app sys)))) (calls sys)"
  by (simp add: inRange_def split: option.splits)

lemma inRange_session: "inRange (session s)"
  by (simp add: inRange_iff session_def)

lemma length_tickStart: "length (chapters (fst (tickStart cl s))) = length (chapters s)"
  by (simp add: tickStart_def addLog_def markCrawling_def split: option.splits)

lemma length_tickUpload: "chapters (fst (tickUpload nv ch s)) = chapters s"
  by (simp add: tickUpload_def addLog_def)

lemma length_tickFinish:
  "length (chapters (fst (tickFinish cl i ch cont res s))) = length (chapters s)"
  by (cases res)
    (simp add: tickFinish_def addLog_def markSuccess_def markError_def Let_def)

lemma inRange_app:
  "inRange sys \<Longrightarrow> length (chapters s') = length (chapters (app sys)) \<Longrightarrow>
   inRange (sys\<lparr>app := s'\<rparr>)"
  by (simp add: inRange_iff)

lemma inRange_render:
  "inRange sys \<Longrightarrow> length (chapters s') = length (chapters (app sys)) \<Longrightarrow>
   inRange (render b s' sys)"
  by (auto simp: inRange_iff render_def crawlerEffect_def)

lemma list_all_dropNth: "list_all P xs \<Longrightarrow> list_all P (dropNth k xs)"
  by (auto simp: dropNth_def list_all_iff dest: in_set_takeD in_set_dropD)

lemma list_all_update: "list_all P xs \<Longrightarrow> P y \<Longrightarrow> list_all P (xs[k := y])"
  by (induction xs arbitrary: k) (auto split: nat.splits)

lemma inRange_startCall:
  assumes "inRange sys" "length (c_chapters cl) = length (chapters (app sys))"
  shows "inRange (startCall cl sys)"
proof -
  obtain s1 r where t: "tickStart cl (app sys) = (s1, r)" by (cases "tickStart cl (app sys)")
  then have l: "length (chapters s1) = length (chapters (app sys))"
    using length_tickStart[of cl "app sys"] by simp
  note rn = inRange_render[OF assms(1) l]
  show ?thesis
  proof (cases r)
    case None
    with t rn show ?thesis by (simp add: startCall_def)
  next
    case (Some i)
    have i: "i < length (chapters (app sys))"
    proof -
      from t Some have "findIndex (\<lambda>c. status c = Pending) (c_chapters cl) = Some i"
        by (auto simp: tickStart_def split: if_splits option.splits)
      from findIndex_Some[OF this] assms(2) show ?thesis by simp
    qed
    have c: "calls (render True s1 sys) = calls sys" by (simp add: render_def)
    have a: "chapters (app (render True s1 sys)) = chapters s1" by (simp add: render_def)
    show ?thesis
    proof (cases "c_novel cl")
      case None
      with t Some rn show ?thesis by (simp add: startCall_def)
    next
      case nv: (Some nv)
      have "inRange ((render True s1 sys)\<lparr>calls := calls sys @ [AwaitFetch cl i (c_chapters cl ! i)]\<rparr>)"
        using rn[of True] i assms(2) l c a by (simp add: inRange_iff)
      with t Some nv show ?thesis by (simp add: startCall_def)
    qed
  qed
qed

lemma inRange_step: "inRange sys \<Longrightarrow> inRange (step e sys)"
proof (cases e)
  case ClickStart
  assume "inRange sys"
  then show ?thesis using ClickStart
    by (auto intro!: inRange_render simp: startCrawling_def addLog_def)
next
  case ClickPause
  assume "inRange sys"
  then show ?thesis using ClickPause
    by (auto intro!: inRange_render simp: stopCrawling_def addLog_def)
next
  case Unmount
  assume "inRange sys"
  then show ?thesis using Unmount by (simp add: inRange_iff)
next
  case EffectTimer
  assume i: "inRange sys"
  show ?thesis
  proof (cases "effectTimer sys")
    case None
    with i EffectTimer show ?thesis by simp
  next
    case (Some cl)
    from i Some have "inRange (sys\<lparr>effectTimer := None\<rparr>)"
      "length (c_chapters cl) = length (chapters (app (sys\<lparr>effectTimer := None\<rparr>)))"
      by (simp_all add: inRange_iff)
    from inRange_startCall[OF this] Some EffectTimer show ?thesis by simp
  qed
next
  case (Line207Timer k)
  assume i: "inRange sys"
  show ?thesis
  proof (cases "k < length (staleTimers sys)")
    case False
    with i Line207Timer show ?thesis by simp
  next
    case True
    let ?sys = "sys\<lparr>staleTimers := dropNth k (staleTimers sys)\<rparr>"
    from i have "inRange ?sys" by (simp add: inRange_iff list_all_dropNth)
    moreover from i True have
      "length (c_chapters (staleTimers sys ! k)) = length (chapters (app ?sys))"
      by (simp add: inRange_iff list_all_length)
    ultimately have "inRange (startCall (staleTimers sys ! k) ?sys)" by (rule inRange_startCall)
    with True Line207Timer show ?thesis by simp
  qed
next
  case (ProviderAnswers k prov)
  assume i: "inRange sys"
  show ?thesis
  proof (cases "k < length (calls sys)")
    case False
    with i ProviderAnswers show ?thesis by simp
  next
    case True
    show ?thesis
    proof (cases "calls sys ! k")
      case (AwaitUpload cl j ch cont fname msg)
      with i True ProviderAnswers show ?thesis by simp
    next
      case (AwaitFetch cl j ch)
      from i True AwaitFetch have r: "callInRange (length (chapters (app sys))) (AwaitFetch cl j ch)"
        by (auto simp: inRange_iff list_all_length)
      have d: "inRange (sys\<lparr>calls := dropNth k (calls sys)\<rparr>)"
        using i by (simp add: inRange_iff list_all_dropNth)
      have "inRange (afterFetch k prov cl j ch sys)"
        using i d r
        by (auto simp: afterFetch_def inRange_iff tickUpload_def addLog_def list_all_dropNth
            list_all_update
            split: option.splits sum.splits prod.splits if_splits)
      with True AwaitFetch ProviderAnswers show ?thesis by simp
    qed
  qed
next
  case (StoreAnswers k http)
  assume i: "inRange sys"
  show ?thesis
  proof (cases "k < length (calls sys)")
    case False
    with i StoreAnswers show ?thesis by simp
  next
    case True
    show ?thesis
    proof (cases "calls sys ! k")
      case (AwaitFetch cl j ch)
      with i True StoreAnswers show ?thesis by simp
    next
      case (AwaitUpload cl j ch cont fname msg)
      from i True AwaitUpload have
        r: "length (c_chapters cl) = length (chapters (app sys))"
        by (auto simp: inRange_iff list_all_length)
      obtain reqs res where u: "uploadFileToGitHub http (c_config cl) fname cont msg = (reqs, res)"
        by (cases "uploadFileToGitHub http (c_config cl) fname cont msg")
      have "inRange (afterUpload k http cl j ch cont fname msg sys)"
      proof (cases res)
        case (Inl e)
        with u i show ?thesis by (simp add: afterUpload_def inRange_iff list_all_dropNth)
      next
        case (Inr x)
        obtain s3 out where t: "tickFinish cl j ch cont x (app sys) = (s3, out)"
          by (cases "tickFinish cl j ch cont x (app sys)")
        then have l: "length (chapters s3) = length (chapters (app sys))"
          using length_tickFinish[of cl j ch cont x "app sys"] by simp
        from inRange_render[OF i l, of "isMounted (app sys)"] r l
        have "inRange ((render (isMounted (app sys)) s3 sys)
                 \<lparr>calls := dropNth k (calls sys), sent := sent sys @ reqs,
                  staleTimers := (if out = Rescheduled then staleTimers sys @ [cl]
                                  else staleTimers sys)\<rparr>)"
          by (auto simp: inRange_iff render_def list_all_dropNth split: if_splits)
        with u Inr t show ?thesis by (simp add: afterUpload_def)
      qed
      with True AwaitUpload StoreAnswers show ?thesis by simp
    qed
  qed
qed

lemma inRange_run: "inRange sys \<Longrightarrow> inRange (run es sys)"
  by (induction es arbitrary: sys) (auto intro: inRange_step)





lemma findIndex_map: "findIndex (\<lambda>c. P (f c)) q = findIndex P (map f q)"
  by (induction q) auto

lemma startCall_selects:
  assumes "isMounted (app sys)" "findIndex (\<lambda>c. status c = Pending) (c_chapters cl) = Some i"
    "c_novel cl = Some nv"
  shows "map status (chapters (app (startCall cl sys))) =
           (map status (chapters (app sys)))[i := Crawling] \<and>
         calls (startCall cl sys) = calls sys @ [AwaitFetch cl i (c_chapters cl ! i)]"
  using assms
  by (simp add: startCall_def tickStart_def render_def addLog_def markCrawling_def map_update)

text \<open>
  Claim C2, at the session of the two chapters. A call does not always select the first
  pending chapter of the queue. The first call has saved chapter 1 and has started the
  2000 ms timer of line 207; the user has clicked Pause. When the timer fires, the closure
  reads the queue of its own render, where chapter 1 is still pending: the call selects
  chapter 1, which is \<open>Success\<close> in the queue, marks it \<open>Crawling\<close> and asks the provider
  for it again. The first pending chapter, chapter 2, is left alone, and the paused crawl
  goes on. Without the click on Pause both chapters are saved and the session is finished
  when the timer fires: no chapter is pending, and the call selects chapter 1 again.
\<close>

theorem line207_tick_selects_saved_chapter:
  "map status (chapters (app demoPaused)) = [Success, Pending] \<and>
   findIndex (\<lambda>c. status c = Pending) (chapters (app demoPaused)) = Some 1 \<and>
   \<not> crawlingActive (app demoPaused) \<and>
   effectTimer demoPaused = None \<and> calls demoPaused = [] \<and>
   staleTimers demoPaused = [demoClosure] \<and>
   map status (chapters (app (step (Line207Timer 0) demoPaused))) = [Crawling, Pending] \<and>
   calls (step (Line207Timer 0) demoPaused) = [AwaitFetch demoClosure 0 (c_chapters demoClosure ! 0)] \<and>
   map status (chapters (app demoFinished)) = [Success, Success] \<and>
   findIndex (\<lambda>c. status c = Pending) (chapters (app demoFinished)) = None \<and>
   appState (app demoFinished) = AppFinished \<and> calls demoFinished = [] \<and>
   map status (chapters (app (step (Line207Timer 0) demoFinished))) = [Crawling, Success] \<and>
   calls (step (Line207Timer 0) demoFinished) = [AwaitFetch demoClosure 0 (c_chapters demoClosure ! 0)]"
proof -
  note p = demoPaused_eval
  note f = demoFinished_eval
  note c = demoClosure_eval
  have p1: "findIndex (\<lambda>c. status c = Pending) (chapters (app demoPaused)) = Some 1"
    using p by (simp add: findIndex_map[of "\<lambda>x. x = Pending" status])
  have f1: "findIndex (\<lambda>c. status c = Pending) (chapters (app demoFinished)) = None"
    using f by (simp add: findIndex_map[of "\<lambda>x. x = Pending" status])
  let ?p = "demoPaused\<lparr>staleTimers := dropNth 0 (staleTimers demoPaused)\<rparr>"
  let ?f = "demoFinished\<lparr>staleTimers := dropNth 0 (staleTimers demoFinished)\<rparr>"
  have sp: "step (Line207Timer 0) demoPaused = startCall demoClosure ?p"
    using p by simp
  have sf: "step (Line207Timer 0) demoFinished = startCall demoClosure ?f"
    using f by (cases "staleTimers demoFinished") auto
  have "isMounted (app ?p)" using p by simp
  from startCall_selects[OF this, of demoClosure 0 demoNovel] c p
  have p2: "map status (chapters (app (step (Line207Timer 0) demoPaused))) = [Crawling, Pending]"
    "calls (step (Line207Timer 0) demoPaused) = [AwaitFetch demoClosure 0 (c_chapters demoClosure ! 0)]"
    unfolding sp by simp_all
  have "isMounted (app ?f)" using f by simp
  from startCall_selects[OF this, of demoClosure 0 demoNovel] c f
  have f2: "map status (chapters (app (step (Line207Timer 0) demoFinished))) = [Crawling, Success]"
    "calls (step (Line207Timer 0) demoFinished) = [AwaitFetch demoClosure 0 (c_chapters demoClosure ! 0)]"
    unfolding sf by simp_all
  from p f p1 f1 p2 f2 show ?thesis by blast
qed

theorem line207_tick_selects_saved_chapter_witness:
  "findIndex (\<lambda>c. status c = Pending) (chapters (app demoPaused)) = Some 1 \<and>
   calls (step (Line207Timer 0) demoPaused) = [AwaitFetch demoClosure 0 (c_chapters demoClosure ! 0)]"
  using line207_tick_selects_saved_chapter by blast







section \<open>Properties of the store client\<close>

subsection \<open>Path normalisation and percent-encoding\<close>

lemma slash_not_surrogate: "isSlash c \<Longrightarrow> \<not> isLead c \<and> \<not> isTrail c"
  by (simp add: isSlash_def isLead_def isTrail_def)

lemma unescaped_ascii: "isUriUnescaped c \<Longrightarrow> unat c \<le> 126"
proof -
  have "isAlnum c \<Longrightarrow> unat c \<le> 126"
    unfolding isAlnum_def word_le_nat_alt by auto
  moreover have "isUriMark c \<Longrightarrow> unat c \<le> 126"
    unfolding isUriMark_def by (elim disjE) simp_all
  ultimately show "isUriUnescaped c \<Longrightarrow> unat c \<le> 126"
    by (auto simp: isUriUnescaped_def)
qed

lemma surrogate_range: "isLead c \<or> isTrail c \<Longrightarrow> 55296 \<le> unat c"
  unfolding isLead_def isTrail_def word_le_nat_alt by auto

lemma unescaped_not_surrogate: "isUriUnescaped c \<Longrightarrow> \<not> isLead c \<and> \<not> isTrail c"
  using unescaped_ascii[of c] surrogate_range[of c] by auto

lemma lead_not_trail: "isLead c \<Longrightarrow> \<not> isTrail c"
  unfolding isLead_def isTrail_def word_le_nat_alt by auto

lemma hasDoubleSlash_Cons:
  "hasDoubleSlash (a # xs) \<longleftrightarrow> (xs \<noteq> [] \<and> isSlash a \<and> isSlash (hd xs)) \<or> hasDoubleSlash xs"
  by (cases xs) auto

lemma hd_collapseSlashes: "collapseSlashes (c # cs) \<noteq> [] \<and> hd (collapseSlashes (c # cs)) = c"
  by (simp add: isSlash_def)

lemma collapseSlashes_Nil: "collapseSlashes s = [] \<longleftrightarrow> s = []"
  by (cases s) simp_all

lemma collapseSlashes_no_double: "\<not> hasDoubleSlash (collapseSlashes s)"
proof (induction s rule: collapseSlashes.induct)
  case 1
  then show ?case by simp
next
  case (2 c cs)
  show ?case
  proof (cases "isSlash c")
    case True
    let ?t = "dropWhile isSlash cs"
    have "?t = [] \<or> \<not> isSlash (hd ?t)"
      by (metis hd_dropWhile)
    then have "collapseSlashes ?t = [] \<or> \<not> isSlash (hd (collapseSlashes ?t))"
    proof (cases ?t)
      case Nil
      show ?thesis by (simp only: Nil) simp
    next
      case (Cons a r)
      assume "?t = [] \<or> \<not> isSlash (hd ?t)"
      with Cons have "\<not> isSlash a" by simp
      then show ?thesis
        using hd_collapseSlashes[of a r] by (simp only: Cons) simp
    qed
    with 2(1)[OF True] True show ?thesis
      by (auto simp: hasDoubleSlash_Cons)
  next
    case False
    with 2(2)[OF False] show ?thesis
      by (simp add: hasDoubleSlash_Cons)
  qed
qed

lemma rawPath_shape:
  "\<not> hasDoubleSlash (rawPath cfg fname) \<and>
   (rawPath cfg fname = [] \<or> \<not> isSlash (hd (rawPath cfg fname)))"
proof -
  let ?c = "collapseSlashes (pathPrefix cfg @ fname)"
  have n: "\<not> hasDoubleSlash ?c" by (rule collapseSlashes_no_double)
  show ?thesis
  proof (cases ?c)
    case Nil
    then show ?thesis by (simp add: rawPath_def stripLeadingSlash_def)
  next
    case (Cons a rest)
    with n show ?thesis
      by (auto simp: rawPath_def stripLeadingSlash_def hasDoubleSlash_Cons)
  qed
qed

lemma filter_collapseSlashes:
  "filter (\<lambda>c. \<not> isSlash c) (collapseSlashes s) = filter (\<lambda>c. \<not> isSlash c) s"
proof (induction s rule: collapseSlashes.induct)
  case 1
  then show ?case by simp
next
  case (2 c cs)
  have "filter (\<lambda>c. \<not> isSlash c) (dropWhile isSlash cs) = filter (\<lambda>c. \<not> isSlash c) cs"
    by (induction cs) auto
  with 2 show ?case by (auto simp: isSlash_def)
qed

lemma filter_rawPath:
  "filter (\<lambda>c. \<not> isSlash c) (rawPath cfg fname) =
   filter (\<lambda>c. \<not> isSlash c) (pathPrefix cfg @ fname)"
  using filter_collapseSlashes[of "pathPrefix cfg @ fname"]
  by (auto simp: rawPath_def stripLeadingSlash_def split: list.splits)

lemma wellFormed_dropWhile_slash: "wellFormed s \<Longrightarrow> wellFormed (dropWhile isSlash s)"
  by (induction s) (auto simp: slash_not_surrogate)

lemma wellFormed_collapseSlashes: "wellFormed s \<Longrightarrow> wellFormed (collapseSlashes s)"
proof (induction s rule: length_induct)
  case (1 s)
  note IH = 1(1)[rule_format]
  show ?case
  proof (cases s)
    case Nil
    then show ?thesis by simp
  next
    case (Cons c cs)
    show ?thesis
    proof (cases "isSlash c")
      case True
      with 1(2) Cons have "wellFormed cs" by (simp add: slash_not_surrogate)
      then have w: "wellFormed (dropWhile isSlash cs)" by (rule wellFormed_dropWhile_slash)
      have "length (dropWhile isSlash cs) < length s"
        using Cons by (simp add: length_dropWhile_le less_Suc_eq_le)
      from IH[OF this w] have "wellFormed (collapseSlashes (dropWhile isSlash cs))" .
      moreover have "\<not> isLead 0x2F \<and> \<not> isTrail 0x2F"
        by (simp add: isLead_def isTrail_def)
      ultimately show ?thesis using True by (simp only: Cons collapseSlashes.simps) simp
    next
      case False
      show ?thesis
      proof (cases "isLead c")
        case True
        with 1(2) Cons obtain d ds where cs: "cs = d # ds" and d: "isTrail d" and w: "wellFormed ds"
          by (auto split: list.splits)
        from d have nd: "\<not> isSlash d" using slash_not_surrogate by blast
        have "length ds < length s" using Cons cs by simp
        from IH[OF this w] have "wellFormed (collapseSlashes ds)" .
        with True False nd d show ?thesis by (simp only: Cons cs collapseSlashes.simps) simp
      next
        case nl: False
        with 1(2) Cons have nt: "\<not> isTrail c" and w: "wellFormed cs" by simp_all
        have "length cs < length s" using Cons by simp
        from IH[OF this w] have "wellFormed (collapseSlashes cs)" .
        with nl False nt show ?thesis by (simp only: Cons collapseSlashes.simps) simp
      qed
    qed
  qed
qed

lemma wellFormed_rawPath:
  "wellFormed (pathPrefix cfg @ fname) \<Longrightarrow> wellFormed (rawPath cfg fname)"
proof -
  assume "wellFormed (pathPrefix cfg @ fname)"
  then have w: "wellFormed (collapseSlashes (pathPrefix cfg @ fname))"
    by (rule wellFormed_collapseSlashes)
  show ?thesis
  proof (cases "collapseSlashes (pathPrefix cfg @ fname)")
    case Nil
    then show ?thesis by (simp add: rawPath_def stripLeadingSlash_def)
  next
    case (Cons a r)
    with w show ?thesis
      by (auto simp: rawPath_def stripLeadingSlash_def slash_not_surrogate)
  qed
qed

lemma unat_of_nat16: "n < 65536 \<Longrightarrow> unat (of_nat n :: cu) = n"
  by (simp add: unat_of_nat)

lemma unat_hexDigit: "d < 16 \<Longrightarrow> unat (hexDigit d) = (if d < 10 then 48 + d else 55 + d)"
  by (simp add: hexDigit_def unat_of_nat16)

lemma hexDigit_alnum: "d < 16 \<Longrightarrow> isAlnum (hexDigit d)"
  unfolding isAlnum_def word_le_nat_alt using unat_hexDigit[of d] by auto

lemma utf8_bytes: "cp < 0x110000 \<Longrightarrow> b \<in> set (utf8 cp) \<Longrightarrow> b < 256"
  by (auto simp: utf8_def split: if_splits)

lemma percentEncode_chars:
  "\<forall>b \<in> set bs. b < 256 \<Longrightarrow> list_all isEncodedChar (percentEncode bs)"
proof (induction bs)
  case Nil
  then show ?case by (simp add: percentEncode_def)
next
  case (Cons b bs)
  then have "b div 16 < 16" "b mod 16 < 16" by auto
  then have "isAlnum (hexDigit (b div 16))" "isAlnum (hexDigit (b mod 16))"
    by (simp_all add: hexDigit_alnum)
  with Cons show ?case
    by (simp add: percentEncode_def isEncodedChar_def isUriUnescaped_def)
qed

lemma unat_lt: "unat (c :: cu) < 65536"
  using unsigned_less[of c, where 'a=nat] by simp

lemma pairCodePoint_bound: "isLead c \<Longrightarrow> isTrail d \<Longrightarrow> pairCodePoint c d < 0x110000"
  unfolding isLead_def isTrail_def word_le_nat_alt pairCodePoint_def by auto

lemma pairCodePoint_lower: "isLead c \<Longrightarrow> isTrail d \<Longrightarrow> 0x10000 \<le> pairCodePoint c d"
  unfolding pairCodePoint_def by simp

lemma percentEncode_pair:
  "isLead c \<Longrightarrow> isTrail d \<Longrightarrow> list_all isEncodedChar (percentEncode (utf8 (pairCodePoint c d)))"
  using utf8_bytes[OF pairCodePoint_bound[of c d]] by (intro percentEncode_chars) blast

lemma percentEncode_unit: "list_all isEncodedChar (percentEncode (utf8 (unat (c :: cu))))"
proof -
  have "unat c < 0x110000" using unat_lt[of c] by simp
  from utf8_bytes[OF this] show ?thesis by (intro percentEncode_chars) blast
qed

lemma appendR_Inr: "appendR x r = Inr e \<longleftrightarrow> (\<exists>y. r = Inr y \<and> e = x @ y)"
  by (cases r) (auto simp: appendR_def)

lemma encodeURIComponent_chars:
  "encodeURIComponent s = Inr e \<Longrightarrow> list_all isEncodedChar e"
proof (induction s arbitrary: e rule: encodeURIComponent.induct)
  case 1
  then show ?case by simp
next
  case (2 c cs)
  show ?case
  proof (cases "isUriUnescaped c")
    case True
    with 2(4) obtain y where y: "encodeURIComponent cs = Inr y" "e = c # y"
      by (auto simp: appendR_Inr)
    with 2(1)[OF True y(1)] True show ?thesis by (simp add: isEncodedChar_def)
  next
    case False
    show ?thesis
    proof (cases "isTrail c")
      case True
      with False 2(4) show ?thesis by simp
    next
      case nt: False
      show ?thesis
      proof (cases "isLead c")
        case nl: False
        with False nt 2(4) obtain y where y: "encodeURIComponent cs = Inr y"
          "e = percentEncode (utf8 (unat c)) @ y"
          by (auto simp: appendR_Inr)
        with 2(2)[OF False nt nl y(1)] percentEncode_unit[of c] show ?thesis by simp
      next
        case True
        with False nt 2(4) obtain d ds y where cs: "cs = d # ds" and d: "isTrail d"
          and y: "encodeURIComponent ds = Inr y" "e = percentEncode (utf8 (pairCodePoint c d)) @ y"
          by (auto simp: appendR_Inr split: list.splits if_splits)
        from 2(3)[OF False nt _ cs d y(1)] True have "list_all isEncodedChar y" by simp
        with y(2) percentEncode_pair[OF True d] show ?thesis by simp
      qed
    qed
  qed
qed

lemma encodeURIComponent_wellFormed:
  "wellFormed s \<Longrightarrow> \<exists>e. encodeURIComponent s = Inr e"
proof (induction s rule: wellFormed.induct)
  case 1
  then show ?case by simp
next
  case (2 c cs)
  show ?case
  proof (cases "isLead c")
    case True
    with 2(3) obtain d ds where cs: "cs = d # ds" and d: "isTrail d" and w: "wellFormed ds"
      by (auto split: list.splits)
    from 2(1)[OF True cs] w obtain y where "encodeURIComponent ds = Inr y" by blast
    moreover from True have "\<not> isUriUnescaped c" "\<not> isTrail c"
      using unescaped_not_surrogate lead_not_trail by blast+
    ultimately show ?thesis using True cs d by (simp add: appendR_def)
  next
    case False
    with 2(3) have nt: "\<not> isTrail c" and w: "wellFormed cs" by simp_all
    from 2(2)[OF False] w obtain y where "encodeURIComponent cs = Inr y" by blast
    with False nt show ?thesis by (simp add: appendR_def)
  qed
qed

lemma encodeURIComponent_Nil: "encodeURIComponent s = Inr [] \<longleftrightarrow> s = []"
proof (cases s)
  case Nil
  then show ?thesis by simp
next
  case (Cons c cs)
  have p: "\<And>cp. percentEncode (utf8 cp) \<noteq> []"
    by (simp add: percentEncode_def utf8_def)
  show ?thesis
    by (auto simp: Cons appendR_Inr p split: list.splits if_splits)
qed

lemma splitSlash_nonempty: "splitSlash s \<noteq> []"
  by (induction s) (auto split: list.splits)

lemma splitSlash_Cons:
  "splitSlash (c # cs) =
     (if isSlash c then [] # splitSlash cs
      else (c # hd (splitSlash cs)) # tl (splitSlash cs))"
  using splitSlash_nonempty[of cs] by (auto split: list.splits)

lemma splitSlash_no_slash: "seg \<in> set (splitSlash s) \<Longrightarrow> \<not> list_ex isSlash seg"
proof (induction s arbitrary: seg)
  case Nil
  then show ?case by simp
next
  case (Cons c cs)
  obtain x xs where x: "splitSlash cs = x # xs"
    using splitSlash_nonempty[of cs] by (cases "splitSlash cs") auto
  with Cons show ?case by (auto split: if_splits)
qed

lemma splitSlash_wellFormed:
  "wellFormed s \<Longrightarrow> seg \<in> set (splitSlash s) \<Longrightarrow> wellFormed seg"
proof (induction s arbitrary: seg rule: wellFormed.induct)
  case 1
  then show ?case by simp
next
  case (2 c cs)
  show ?case
  proof (cases "isLead c")
    case True
    with 2(3) obtain d ds where cs: "cs = d # ds" and d: "isTrail d" and w: "wellFormed ds"
      by (auto split: list.splits)
    obtain x xs where x: "splitSlash ds = x # xs"
      using splitSlash_nonempty[of ds] by (cases "splitSlash ds") auto
    from True d have ns: "\<not> isSlash c" "\<not> isSlash d"
      using slash_not_surrogate by blast+
    with 2(4) cs x have "seg = c # d # x \<or> seg \<in> set xs" by simp
    moreover have "wellFormed x" "\<And>y. y \<in> set xs \<Longrightarrow> wellFormed y"
      using 2(1)[OF True cs w] x by auto
    ultimately show ?thesis using True d by auto
  next
    case False
    with 2(3) have nt: "\<not> isTrail c" and w: "wellFormed cs" by simp_all
    obtain x xs where x: "splitSlash cs = x # xs"
      using splitSlash_nonempty[of cs] by (cases "splitSlash cs") auto
    have ih: "wellFormed x" "\<And>y. y \<in> set xs \<Longrightarrow> wellFormed y"
      using 2(2)[OF False w] x by auto
    from 2(4) x have "seg = [] \<or> seg = c # x \<or> seg = x \<or> seg \<in> set xs"
      by (auto split: if_splits)
    with ih False nt show ?thesis by auto
  qed
qed

lemma mapEncode_Inr:
  "mapEncode segs = Inr xs \<longleftrightarrow> list_all2 (\<lambda>seg x. encodeURIComponent seg = Inr x) segs xs"
proof (induction segs arbitrary: xs)
  case Nil
  then show ?case by auto
next
  case (Cons seg segs)
  show ?case
    by (cases xs) (auto simp: Cons[symmetric] split: sum.splits)
qed

lemma mapEncode_wellFormed:
  "\<forall>seg \<in> set segs. wellFormed seg \<Longrightarrow> \<exists>xs. mapEncode segs = Inr xs"
proof (induction segs)
  case Nil
  then show ?case by simp
next
  case (Cons seg segs)
  then obtain xs where "mapEncode segs = Inr xs" by auto
  moreover from Cons.prems obtain x where "encodeURIComponent seg = Inr x"
    using encodeURIComponent_wellFormed[of seg] by auto
  ultimately show ?case by simp
qed

lemma encoded_no_slash: "list_all isEncodedChar e \<Longrightarrow> \<not> list_ex isSlash e"
proof -
  have "\<And>c. isEncodedChar c \<Longrightarrow> \<not> isSlash c"
    unfolding isEncodedChar_def isSlash_def isUriUnescaped_def isAlnum_def isUriMark_def
      word_le_nat_alt by auto
  then show "list_all isEncodedChar e \<Longrightarrow> \<not> list_ex isSlash e"
    by (auto simp: list_all_iff list_ex_iff)
qed

lemma splitSlash_no_slash_id: "\<not> list_ex isSlash x \<Longrightarrow> splitSlash x = [x]"
  by (induction x) auto

lemma splitSlash_append:
  "\<not> list_ex isSlash x \<Longrightarrow> splitSlash (x @ 0x2F # r) = x # splitSlash r"
  by (induction x) (auto simp: isSlash_def)

lemma splitSlash_joinWith:
  "xs \<noteq> [] \<Longrightarrow> \<forall>x \<in> set xs. \<not> list_ex isSlash x \<Longrightarrow> splitSlash (joinWith [0x2F] xs) = xs"
proof (induction xs)
  case Nil
  then show ?case by simp
next
  case (Cons x xs)
  show ?case
  proof (cases xs)
    case Nil
    with Cons.prems show ?thesis by (simp add: splitSlash_no_slash_id)
  next
    case (Cons y ys)
    with Cons.IH Cons.prems have "splitSlash (joinWith [0x2F] xs) = xs" by simp
    with Cons Cons.prems show ?thesis by (simp add: splitSlash_append)
  qed
qed

lemma joinWith_chars:
  "\<forall>x \<in> set xs. list_all P x \<Longrightarrow> list_all P sep \<Longrightarrow> list_all P (joinWith sep xs)"
  by (induction sep xs rule: joinWith.induct) auto

lemma hd_splitSlash_Nil: "hd (splitSlash s) = [] \<longleftrightarrow> s = [] \<or> isSlash (hd s)"
  by (cases s) (auto simp del: splitSlash.simps simp add: splitSlash_Cons splitSlash.simps(1))

lemma inner_segments:
  "\<not> hasDoubleSlash s \<Longrightarrow> [] \<notin> set (butlast (tl (splitSlash s)))"
proof (induction s)
  case Nil
  then show ?case by simp
next
  case (Cons c cs)
  obtain x xs where x: "splitSlash cs = x # xs"
    using splitSlash_nonempty[of cs] by (cases "splitSlash cs") auto
  from Cons.prems have n: "\<not> hasDoubleSlash cs" by (simp add: hasDoubleSlash_Cons)
  with Cons.IH x have ih: "[] \<notin> set (butlast xs)" by simp
  show ?case
  proof (cases "isSlash c")
    case True
    with Cons.prems have "cs = [] \<or> \<not> isSlash (hd cs)" by (auto simp: hasDoubleSlash_Cons)
    then have "xs = [] \<or> x \<noteq> []"
      using hd_splitSlash_Nil[of cs] x by auto
    with True x ih show ?thesis by auto
  next
    case False
    with x ih show ?thesis by simp
  qed
qed

lemma raw_segments:
  "\<not> hasDoubleSlash s \<Longrightarrow> s = [] \<or> \<not> isSlash (hd s) \<Longrightarrow> [] \<notin> set (butlast (splitSlash s))"
proof -
  assume a: "\<not> hasDoubleSlash s" "s = [] \<or> \<not> isSlash (hd s)"
  obtain x xs where x: "splitSlash s = x # xs"
    using splitSlash_nonempty[of s] by (cases "splitSlash s") auto
  from inner_segments[OF a(1)] x have "[] \<notin> set (butlast xs)" by simp
  moreover from a(2) have "xs = [] \<or> x \<noteq> []"
    using hd_splitSlash_Nil[of s] x by (cases s) auto
  ultimately show ?thesis using x by auto
qed

lemma encoded_segments:
  assumes "list_all2 (\<lambda>seg x. encodeURIComponent seg = Inr x) segs xs"
    "[] \<notin> set (butlast segs)"
  shows "[] \<notin> set (butlast xs)"
proof
  assume "[] \<in> set (butlast xs)"
  then obtain i where i: "i < length (butlast xs)" "butlast xs ! i = []"
    by (auto simp: in_set_conv_nth)
  from assms(1) have l: "length segs = length xs" by (rule list_all2_lengthD)
  from i l have "encodeURIComponent (segs ! i) = Inr (xs ! i)"
    using assms(1) by (simp add: list_all2_conv_all_nth)
  moreover from i have "xs ! i = []" by (simp add: nth_butlast)
  ultimately have "segs ! i = []" by (simp add: encodeURIComponent_Nil)
  with i l have "butlast segs ! i = []" "i < length (butlast segs)" by (simp_all add: nth_butlast)
  then have "[] \<in> set (butlast segs)" by (metis nth_mem)
  with assms(2) show False by simp
qed

subsection \<open>The content encoding and its decoder\<close>

lemma unat_base64Char:
  "n < 64 \<Longrightarrow> unat (base64Char n) =
     (if n < 26 then 65 + n else if n < 52 then 71 + n else if n < 62 then n - 4
      else if n = 62 then 43 else 47)"
proof -
  let ?f = "if n < 26 then 65 + n else if n < 52 then 71 + n else if n < 62 then n - 4
      else if n = 62 then 43 else 47"
  assume "n < 64"
  then have "?f < 65536" by auto
  then show ?thesis unfolding base64Char_def by (rule unat_of_nat16)
qed

lemma base64Value_unat:
  "base64Value c =
     (if 65 \<le> unat c \<and> unat c \<le> 90 then Some (unat c - 65)
      else if 97 \<le> unat c \<and> unat c \<le> 122 then Some (unat c - 71)
      else if 48 \<le> unat c \<and> unat c \<le> 57 then Some (unat c + 4)
      else if unat c = 43 then Some 62
      else if unat c = 47 then Some 63
      else None)"
  unfolding base64Value_def word_le_nat_alt word_unat_eq_iff by simp

lemma base64Value_Char: "n < 64 \<Longrightarrow> base64Value (base64Char n) = Some n"
  unfolding base64Value_unat using unat_base64Char[of n] by auto

lemma base64Char_not_pad: "n < 64 \<Longrightarrow> base64Char n \<noteq> 0x3D"
  unfolding word_unat_eq_iff using unat_base64Char[of n] by auto

lemma div_mult_add: "y < k \<Longrightarrow> (x * k + y) div k = (x::nat)"
  by simp

lemma mod_mult_add: "y < k \<Longrightarrow> (x * k + y) mod k = (y::nat)"
  by simp

lemma sextets:
  assumes "a < 256" "b < 256" "c < 256"
  shows "a div 4 * 4 + (a mod 4 * 16 + b div 16) div 16 = (a::nat)"
    "(a mod 4 * 16 + b div 16) mod 16 * 16 + (b mod 16 * 4 + c div 64) div 4 = b"
    "(b mod 16 * 4 + c div 64) mod 4 * 64 + c mod 64 = c"
proof -
  from assms have l: "b div 16 < 16" "c div 64 < 4" by auto
  have 1: "(a mod 4 * 16 + b div 16) div 16 = a mod 4"
    using l(1) by (rule div_mult_add)
  have 2: "(a mod 4 * 16 + b div 16) mod 16 = b div 16"
    using l(1) by (rule mod_mult_add)
  have 3: "(b mod 16 * 4 + c div 64) div 4 = b mod 16"
    using l(2) by (rule div_mult_add)
  have 4: "(b mod 16 * 4 + c div 64) mod 4 = c div 64"
    using l(2) by (rule mod_mult_add)
  show "a div 4 * 4 + (a mod 4 * 16 + b div 16) div 16 = a"
    unfolding 1 by simp
  show "(a mod 4 * 16 + b div 16) mod 16 * 16 + (b mod 16 * 4 + c div 64) div 4 = b"
    unfolding 2 3 by simp
  show "(b mod 16 * 4 + c div 64) mod 4 * 64 + c mod 64 = c"
    unfolding 4 by simp
qed

lemma sextet_bounds:
  assumes "a < 256" "b < 256" "c < 256"
  shows "a div 4 < 64" "a mod 4 * 16 + b div 16 < 64" "b mod 16 * 4 + c div 64 < 64"
    "c mod 64 < (64::nat)"
proof -
  from assms have "a mod 4 < 4" "b div 16 < 16" "b mod 16 < 16" "c div 64 < 4" by auto
  then show "a mod 4 * 16 + b div 16 < 64" "b mod 16 * 4 + c div 64 < 64" by linarith+
  from assms show "a div 4 < 64" "c mod 64 < 64" by auto
qed

lemma quad_decode:
  assumes "p < 64" "q < 64" "r < 64" "s < 64"
  shows "base64Decode (base64Char p # base64Char q # base64Char r # base64Char s # t) =
     (case base64Decode t of
        Some bs \<Rightarrow> Some ([p * 4 + q div 16, q mod 16 * 16 + r div 4, r mod 4 * 64 + s] @ bs)
      | None \<Rightarrow> None)"
  using assms by (simp add: base64Value_Char base64Char_not_pad split: option.splits)

lemma pad1_decode:
  assumes "p < 64" "q < 64" "r < 64"
  shows "base64Decode [base64Char p, base64Char q, base64Char r, 0x3D] =
     Some [p * 4 + q div 16, q mod 16 * 16 + r div 4]"
  using assms by (simp add: base64Value_Char base64Char_not_pad)

lemma pad2_decode:
  assumes "p < 64" "q < 64"
  shows "base64Decode [base64Char p, base64Char q, 0x3D, 0x3D] = Some [p * 4 + q div 16]"
  using assms by (simp add: base64Value_Char)

lemma base64_roundtrip: "\<forall>b \<in> set bs. b < 256 \<Longrightarrow> base64Decode (base64 bs) = Some bs"
proof (induction bs rule: base64.induct)
  case (1 a b c rest)
  then have r: "a < 256" "b < 256" "c < 256" and ih: "base64Decode (base64 rest) = Some rest"
    by simp_all
  note v = sextet_bounds[OF r]
  note e = sextets[OF r]
  have "base64Decode (base64 (a # b # c # rest)) =
      Some ([a div 4 * 4 + (a mod 4 * 16 + b div 16) div 16,
             (a mod 4 * 16 + b div 16) mod 16 * 16 + (b mod 16 * 4 + c div 64) div 4,
             (b mod 16 * 4 + c div 64) mod 4 * 64 + c mod 64] @ rest)"
    unfolding base64.simps append_Cons append_Nil quad_decode[OF v] ih by simp
  then show ?case unfolding e by simp
next
  case (2 a b)
  then have r: "a < 256" "b < 256" by simp_all
  have z: "(0::nat) < 256" by simp
  note v = sextet_bounds[OF r z]
  note e = sextets[OF r z]
  have "base64Decode (base64 [a, b]) =
      Some [a div 4 * 4 + (a mod 4 * 16 + b div 16) div 16,
            (a mod 4 * 16 + b div 16) mod 16 * 16 + (b mod 16 * 4 + 0 div 64) div 4]"
    using pad1_decode[OF v(1) v(2) v(3)] by simp
  then show ?case unfolding e by simp
next
  case (3 a)
  then have r: "a < 256" by simp
  have z: "(0::nat) < 256" by simp
  note v = sextet_bounds[OF r z z]
  note e = sextets[OF r z z]
  have "base64Decode (base64 [a]) = Some [a div 4 * 4 + (a mod 4 * 16 + 0 div 16) div 16]"
    using pad2_decode[OF v(1) v(2)] by simp
  then show ?case unfolding e by simp
next
  case 4
  then show ?case by simp
qed

lemma hexDigitValue_unat:
  "hexDigitValue c =
     (if 48 \<le> unat c \<and> unat c \<le> 57 then Some (unat c - 48)
      else if 65 \<le> unat c \<and> unat c \<le> 70 then Some (unat c - 55)
      else if 97 \<le> unat c \<and> unat c \<le> 102 then Some (unat c - 87)
      else None)"
  unfolding hexDigitValue_def word_le_nat_alt by simp

lemma hexDigitValue_hexDigit: "d < 16 \<Longrightarrow> hexDigitValue (hexDigit d) = Some d"
  unfolding hexDigitValue_unat using unat_hexDigit[of d] by auto

lemma hexDigit_not_u: "d < 16 \<Longrightarrow> hexDigit d \<noteq> 0x75"
  unfolding word_unat_eq_iff using unat_hexDigit[of d] by auto

lemma hexValue_pair:
  "b < 256 \<Longrightarrow> hexValue [hexDigit (b div 16), hexDigit (b mod 16)] = Some b"
proof -
  assume "b < 256"
  then have "b div 16 < 16" "b mod 16 < 16" by auto
  then show ?thesis by (simp add: hexDigitValue_hexDigit)
qed

lemma unescape_pct:
  assumes "b < 256"
  shows "unescape (0x25 # hexDigit (b div 16) # hexDigit (b mod 16) # r) = of_nat b # unescape r"
proof -
  from assms have "b div 16 < 16" by auto
  then have u: "hexDigit (b div 16) \<noteq> 0x75" by (rule hexDigit_not_u)
  show ?thesis
    using u hexValue_pair[OF assms] by simp
qed

lemma unescape_literal: "c \<noteq> 0x25 \<Longrightarrow> unescape (c # r) = c # unescape r"
  by simp

lemma unescape_percentEncode:
  "\<forall>b \<in> set bs. b < 256 \<Longrightarrow> unescape (percentEncode bs @ r) = map of_nat bs @ unescape r"
proof (induction bs)
  case Nil
  then show ?case by (simp add: percentEncode_def)
next
  case (Cons b bs)
  then have b: "b < 256" and ih: "unescape (percentEncode bs @ r) = map of_nat bs @ unescape r"
    by (simp_all add: percentEncode_def)
  have "percentEncode (b # bs) @ r =
      0x25 # hexDigit (b div 16) # hexDigit (b mod 16) # (percentEncode bs @ r)"
    by (simp add: percentEncode_def)
  then show ?case
    using unescape_pct[OF b, of "percentEncode bs @ r"] ih by simp
qed

lemma utf8_ascii: "cp < 0x80 \<Longrightarrow> utf8 cp = [cp]"
  by (simp add: utf8_def)

lemma of_nat_unat16: "of_nat (unat (c :: cu)) = c"
  by simp

lemma unescaped_not_percent: "isUriUnescaped c \<Longrightarrow> c \<noteq> 0x25"
  unfolding isUriUnescaped_def isAlnum_def isUriMark_def word_le_nat_alt by auto

lemma unescape_encodeURIComponent:
  "encodeURIComponent s = Inr e \<Longrightarrow> unescape e = map of_nat (utf8Bytes s)"
proof (induction s arbitrary: e rule: encodeURIComponent.induct)
  case 1
  then show ?case by simp
next
  case (2 c cs)
  show ?case
  proof (cases "isUriUnescaped c")
    case True
    with 2(4) obtain y where y: "encodeURIComponent cs = Inr y" "e = c # y"
      by (auto simp: appendR_Inr)
    from True have s: "\<not> isLead c" "c \<noteq> 0x25" "unat c < 0x80"
      using unescaped_not_surrogate unescaped_not_percent unescaped_ascii[of c] by auto
    from 2(1)[OF True y(1)] have "unescape y = map of_nat (utf8Bytes cs)" .
    with s y(2) show ?thesis
      by (simp add: utf8_ascii)
  next
    case False
    show ?thesis
    proof (cases "isTrail c")
      case True
      with False 2(4) show ?thesis by simp
    next
      case nt: False
      show ?thesis
      proof (cases "isLead c")
        case nl: False
        with False nt 2(4) obtain y where y: "encodeURIComponent cs = Inr y"
          "e = percentEncode (utf8 (unat c)) @ y"
          by (auto simp: appendR_Inr)
        have "unat c < 0x110000" using unat_lt[of c] by simp
        then have b: "\<forall>b \<in> set (utf8 (unat c)). b < 256"
          using utf8_bytes by blast
        from 2(2)[OF False nt nl y(1)] have "unescape y = map of_nat (utf8Bytes cs)" .
        with nl y(2) unescape_percentEncode[OF b, of y] show ?thesis by simp
      next
        case True
        with False nt 2(4) obtain d ds y where cs: "cs = d # ds" and d: "isTrail d"
          and y: "encodeURIComponent ds = Inr y" "e = percentEncode (utf8 (pairCodePoint c d)) @ y"
          by (auto simp: appendR_Inr split: list.splits if_splits)
        have b: "\<forall>b \<in> set (utf8 (pairCodePoint c d)). b < 256"
          using utf8_bytes[OF pairCodePoint_bound[OF True d]] by blast
        from 2(3)[OF False nt _ cs d y(1)] True have "unescape y = map of_nat (utf8Bytes ds)"
          by simp
        with True d cs y(2) unescape_percentEncode[OF b, of y] show ?thesis by simp
      qed
    qed
  qed
qed

lemma utf8Bytes_bound: "wellFormed s \<Longrightarrow> b \<in> set (utf8Bytes s) \<Longrightarrow> b < 256"
proof (induction s rule: wellFormed.induct)
  case 1
  then show ?case by simp
next
  case (2 c cs)
  have u: "\<And>x. x \<in> set (utf8 (unat c)) \<Longrightarrow> x < 256"
  proof -
    have "unat c < 0x110000" using unat_lt[of c] by simp
    then show "\<And>x. x \<in> set (utf8 (unat c)) \<Longrightarrow> x < 256" using utf8_bytes by blast
  qed
  show ?case
  proof (cases "isLead c")
    case True
    with 2(3) obtain d ds where cs: "cs = d # ds" and d: "isTrail d" and w: "wellFormed ds"
      by (auto split: list.splits)
    from 2(4) True cs d have "b \<in> set (utf8 (pairCodePoint c d)) \<or> b \<in> set (utf8Bytes ds)"
      by simp
    then show ?thesis
      using utf8_bytes[OF pairCodePoint_bound[OF True d]] 2(1)[OF True cs w] by blast
  next
    case False
    with 2(3) have w: "wellFormed cs" by simp
    from 2(4) False have "b \<in> set (utf8 (unat c)) \<or> b \<in> set (utf8Bytes cs)" by simp
    then show ?thesis using u 2(2)[OF False w] by blast
  qed
qed

lemma btoa_bytes:
  assumes "\<forall>b \<in> set bs. b < 256"
  shows "btoa (map of_nat bs) = Inr (base64 bs)"
proof -
  have u: "unat (of_nat b :: cu) = b" if "b \<in> set bs" for b
  proof -
    from that assms have "b < 65536" by fastforce
    then show ?thesis by (rule unat_of_nat16)
  qed
  then have m: "map unat (map of_nat bs :: jsstring) = bs"
    by (simp add: map_idI)
  have "\<not> 0xFF < (of_nat b :: cu)" if "b \<in> set bs" for b
    unfolding word_less_nat_alt using u[OF that] that assms by auto
  then have "\<not> list_ex (\<lambda>c. 0xFF < c) (map of_nat bs :: jsstring)"
    by (auto simp: list_ex_iff)
  with m show ?thesis by (simp add: btoa_def)
qed

lemma base64Content_wellFormed:
  "wellFormed s \<Longrightarrow> base64Content s = Inr (base64 (utf8Bytes s))"
proof -
  assume w: "wellFormed s"
  then obtain e where e: "encodeURIComponent s = Inr e"
    using encodeURIComponent_wellFormed by blast
  from unescape_encodeURIComponent[OF e] have "unescape e = map of_nat (utf8Bytes s)" .
  moreover have "\<forall>b \<in> set (utf8Bytes s). b < 256"
    using utf8Bytes_bound[OF w] by blast
  ultimately show ?thesis
    using e by (simp add: base64Content_def btoa_bytes)
qed

lemma split64: "cp div 0x40 mod 0x40 * 0x40 + cp mod 0x40 = cp mod 0x1000" for cp :: nat
  using mod_mult2_eq[of cp 64 64] by simp

lemma split4096: "cp div 0x1000 mod 0x40 * 0x1000 + cp mod 0x1000 = cp mod 0x40000" for cp :: nat
  using mod_mult2_eq[of cp 4096 64] by simp

lemma join3: "cp div 0x1000 * 0x1000 + cp div 0x40 mod 0x40 * 0x40 + cp mod 0x40 = cp" for cp :: nat
proof -
  have "cp div 0x1000 * 0x1000 + cp div 0x40 mod 0x40 * 0x40 + cp mod 0x40 =
      cp div 0x1000 * 0x1000 + (cp div 0x40 mod 0x40 * 0x40 + cp mod 0x40)"
    by (simp only: add.assoc)
  also have "\<dots> = cp div 0x1000 * 0x1000 + cp mod 0x1000"
    by (simp only: split64)
  also have "\<dots> = cp"
    by (rule div_mult_mod_eq)
  finally show ?thesis .
qed

lemma join4:
  "cp div 0x40000 * 0x40000 + cp div 0x1000 mod 0x40 * 0x1000 + cp div 0x40 mod 0x40 * 0x40 +
   cp mod 0x40 = cp" for cp :: nat
proof -
  have "cp div 0x40000 * 0x40000 + cp div 0x1000 mod 0x40 * 0x1000 + cp div 0x40 mod 0x40 * 0x40 +
      cp mod 0x40 =
      cp div 0x40000 * 0x40000 +
      (cp div 0x1000 mod 0x40 * 0x1000 + (cp div 0x40 mod 0x40 * 0x40 + cp mod 0x40))"
    by (simp only: add.assoc)
  also have "\<dots> = cp div 0x40000 * 0x40000 + (cp div 0x1000 mod 0x40 * 0x1000 + cp mod 0x1000)"
    by (simp only: split64)
  also have "\<dots> = cp div 0x40000 * 0x40000 + cp mod 0x40000"
    by (simp only: split4096)
  also have "\<dots> = cp"
    by (rule div_mult_mod_eq)
  finally show ?thesis .
qed

lemma utf8Decode_1: "cp < 0x80 \<Longrightarrow> utf8Decode (utf8 cp) = Some cp"
  by (simp add: utf8_def utf8Decode_def)

lemma utf8Decode_2: "0x80 \<le> cp \<Longrightarrow> cp < 0x800 \<Longrightarrow> utf8Decode (utf8 cp) = Some cp"
  by (simp add: utf8_def utf8Decode_def isContinuation_def)

lemma utf8Decode_3:
  "0x800 \<le> cp \<Longrightarrow> cp < 0x10000 \<Longrightarrow> cp < 0xD800 \<or> 0xDFFF < cp \<Longrightarrow>
   utf8Decode (utf8 cp) = Some cp"
  using join3[of cp] by (simp add: utf8_def utf8Decode_def isContinuation_def Let_def)

lemma utf8Decode_4:
  "0x10000 \<le> cp \<Longrightarrow> cp < 0x110000 \<Longrightarrow> utf8Decode (utf8 cp) = Some cp"
  using join4[of cp] by (simp add: utf8_def utf8Decode_def isContinuation_def Let_def)

lemma sequenceLength_utf8:
  assumes "cp < 0x110000"
  shows "sequenceLength (hd (utf8 cp)) = Some (length (utf8 cp))"
proof -
  have 2: "cp < 0x800 \<Longrightarrow> cp div 0x40 < 0x20" by arith
  have 3: "cp < 0x10000 \<Longrightarrow> cp div 0x1000 < 0x10" by arith
  have 4: "cp div 0x40000 < 8" using assms by arith
  consider "cp < 0x80" | "0x80 \<le> cp \<and> cp < 0x800" | "0x800 \<le> cp \<and> cp < 0x10000"
    | "0x10000 \<le> cp" by linarith
  then show ?thesis
  proof cases
    case 1
    then show ?thesis by (simp add: utf8_def sequenceLength_def)
  next
    case 2
    with \<open>cp < 0x800 \<Longrightarrow> cp div 0x40 < 0x20\<close> show ?thesis
      by (simp add: utf8_def sequenceLength_def)
  next
    case 3
    with \<open>cp < 0x10000 \<Longrightarrow> cp div 0x1000 < 0x10\<close> show ?thesis
      by (simp add: utf8_def sequenceLength_def)
  next
    case 4
    with \<open>cp div 0x40000 < 8\<close> show ?thesis
      by (simp add: utf8_def sequenceLength_def)
  qed
qed

lemma utf8_high: "0x80 \<le> cp \<Longrightarrow> b \<in> set (utf8 cp) \<Longrightarrow> 0x80 \<le> b"
  by (auto simp: utf8_def split: if_splits)

lemma escape_append: "escape (a @ b) = escape a @ escape b"
  by (simp add: escape_def)

lemma escapeUnescaped_ascii: "isEscapeUnescaped c \<Longrightarrow> unat c < 0x80 \<and> c \<noteq> 0x25"
proof -
  have "isAlnum c \<Longrightarrow> unat c < 0x80 \<and> unat c \<noteq> 0x25"
    unfolding isAlnum_def word_le_nat_alt by auto
  then show "isEscapeUnescaped c \<Longrightarrow> unat c < 0x80 \<and> c \<noteq> 0x25"
    unfolding isEscapeUnescaped_def word_unat_eq_iff by auto
qed

lemma escapeUnit_byte:
  assumes "b < 256" "\<not> isEscapeUnescaped (of_nat b)"
  shows "escapeUnit (of_nat b) = [0x25, hexDigit (b div 16), hexDigit (b mod 16)]"
proof -
  from assms(1) have u: "unat (of_nat b :: cu) = b" by (simp add: unat_of_nat16)
  then have "(of_nat b :: cu) < 0x100"
    unfolding word_less_nat_alt using assms(1) by simp
  with assms(2) u show ?thesis by (simp add: escapeUnit_def)
qed

lemma escapeUnit_high:
  assumes "b < 256" "0x80 \<le> b"
  shows "escapeUnit (of_nat b) = [0x25, hexDigit (b div 16), hexDigit (b mod 16)]"
proof -
  from assms(1) have u: "unat (of_nat b :: cu) = b" by (simp add: unat_of_nat16)
  with assms(2) have "\<not> isEscapeUnescaped (of_nat b)"
    using escapeUnescaped_ascii[of "of_nat b"] by auto
  with assms(1) show ?thesis by (rule escapeUnit_byte)
qed

lemma escape_high:
  "\<forall>b \<in> set bs. b < 256 \<and> 0x80 \<le> b \<Longrightarrow> escape (map of_nat bs) = percentEncode bs"
  by (induction bs) (simp_all add: escape_def percentEncode_def escapeUnit_high)

lemma readEscapes_pct:
  assumes "b < 256"
  shows "readEscapes (Suc n) (0x25 # hexDigit (b div 16) # hexDigit (b mod 16) # r) =
     (case readEscapes n r of Some bs \<Rightarrow> Some (b # bs) | None \<Rightarrow> None)"
  using hexValue_pair[OF assms] by (simp split: option.splits)

lemma readEscapes_percentEncode:
  "\<forall>b \<in> set bs. b < 256 \<Longrightarrow> readEscapes (length bs) (percentEncode bs @ r) = Some bs"
proof (induction bs)
  case Nil
  then show ?case by simp
next
  case (Cons b bs)
  then have b: "b < 256" and ih: "readEscapes (length bs) (percentEncode bs @ r) = Some bs"
    by simp_all
  have p: "percentEncode (b # bs) @ r =
      0x25 # hexDigit (b div 16) # hexDigit (b mod 16) # (percentEncode bs @ r)"
    by (simp add: percentEncode_def)
  show ?case
    unfolding p length_Cons readEscapes_pct[OF b] ih by simp
qed

lemma length_percentEncode: "length (percentEncode bs) = 3 * length bs"
  by (induction bs) (simp_all add: percentEncode_def)

lemma decode_literal: "c \<noteq> 0x25 \<Longrightarrow> decodeURIComponent (c # r) = appendR [c] (decodeURIComponent r)"
  by simp

lemma decode_sequence:
  assumes "\<forall>b \<in> set (b0 # bs). b < 256" "sequenceLength b0 = Some (length (b0 # bs))"
    "utf8Decode (b0 # bs) = Some cp"
  shows "decodeURIComponent (percentEncode (b0 # bs) @ r) =
     appendR (utf16 cp) (decodeURIComponent r)"
proof -
  let ?cs = "hexDigit (b0 div 16) # hexDigit (b0 mod 16) # (percentEncode bs @ r)"
  from assms(1) have b0: "b0 < 256" by simp
  have p: "percentEncode (b0 # bs) @ r = 0x25 # ?cs"
    by (simp add: percentEncode_def)
  have h: "hexValue (take 2 ?cs) = Some b0"
    using hexValue_pair[OF b0] by simp
  have re: "readEscapes (length (b0 # bs)) (0x25 # ?cs) = Some (b0 # bs)"
    using readEscapes_percentEncode[OF assms(1), of r] p by simp
  have d: "drop (3 * length (b0 # bs) - 1) ?cs = r"
    by (simp add: length_percentEncode)
  have l: "\<not> length ?cs < 2" by simp
  show ?thesis
    unfolding p
    by (subst decodeURIComponent.simps) (simp only: l h assms(2) assms(3) re d option.case if_False
        simp_thms)
qed

lemma utf8_Cons: "\<exists>b0 bs. utf8 cp = b0 # bs"
  by (simp add: utf8_def)

lemma utf8Decode_utf8:
  assumes "cp < 0x110000" "cp < 0xD800 \<or> 0xDFFF < cp"
  shows "utf8Decode (utf8 cp) = Some cp"
proof -
  consider "cp < 0x80" | "0x80 \<le> cp \<and> cp < 0x800" | "0x800 \<le> cp \<and> cp < 0x10000"
    | "0x10000 \<le> cp" by linarith
  then show ?thesis
  proof cases
    case 1
    then show ?thesis by (rule utf8Decode_1)
  next
    case 2
    then show ?thesis by (simp add: utf8Decode_2)
  next
    case 3
    with assms(2) show ?thesis by (simp add: utf8Decode_3)
  next
    case 4
    with assms(1) show ?thesis by (simp add: utf8Decode_4)
  qed
qed

lemma decode_codepoint:
  assumes "cp < 0x110000" "cp < 0xD800 \<or> 0xDFFF < cp"
  shows "decodeURIComponent (escape (map of_nat (utf8 cp)) @ r) =
     appendR (utf16 cp) (decodeURIComponent r)"
proof -
  obtain b0 bs where u: "utf8 cp = b0 # bs" using utf8_Cons by blast
  have bytes: "\<forall>b \<in> set (b0 # bs). b < 256"
    using utf8_bytes[OF assms(1)] u by auto
  have sl: "sequenceLength b0 = Some (length (b0 # bs))"
    using sequenceLength_utf8[OF assms(1)] u by simp
  have ud: "utf8Decode (b0 # bs) = Some cp"
    using utf8Decode_utf8[OF assms] u by simp
  note seq = decode_sequence[OF bytes sl ud, of r]
  show ?thesis
  proof (cases "0x80 \<le> cp")
    case True
    then have "\<forall>b \<in> set (b0 # bs). b < 256 \<and> 0x80 \<le> b"
      using bytes utf8_high[of cp] u by auto
    then have "escape (map of_nat (b0 # bs)) = percentEncode (b0 # bs)"
      by (rule escape_high)
    with seq u show ?thesis by simp
  next
    case False
    then have a: "cp < 0x80" by simp
    with u have b: "b0 = cp" "bs = []" by (simp_all add: utf8_ascii)
    show ?thesis
    proof (cases "isEscapeUnescaped (of_nat cp)")
      case True
      then have "(of_nat cp :: cu) \<noteq> 0x25" using escapeUnescaped_ascii by blast
      then have "decodeURIComponent (of_nat cp # r) = appendR [of_nat cp] (decodeURIComponent r)"
        by (rule decode_literal)
      with True a show ?thesis
        by (simp add: utf8_ascii escape_def escapeUnit_def utf16_def)
    next
      case False
      from a have "cp < 256" by simp
      from escapeUnit_byte[OF this False]
      have "escape (map of_nat (utf8 cp)) = percentEncode [cp]"
        using a by (simp add: utf8_ascii escape_def percentEncode_def)
      with seq b show ?thesis by simp
    qed
  qed
qed

lemma utf16_unit: "utf16 (unat (c :: cu)) = [c]"
  using unat_lt[of c] by (simp add: utf16_def)

lemma utf16_pair:
  assumes "isLead c" "isTrail d"
  shows "utf16 (pairCodePoint c d) = [c, d]"
proof -
  from assms have r: "0xD800 \<le> unat c" "unat c \<le> 0xDBFF" "0xDC00 \<le> unat d" "unat d \<le> 0xDFFF"
    unfolding isLead_def isTrail_def word_le_nat_alt by simp_all
  define x where "x = unat c - 0xD800"
  define y where "y = unat d - 0xDC00"
  from r have y: "y < 0x400" and xc: "0xD800 + x = unat c" and yd: "0xDC00 + y = unat d"
    by (simp_all add: x_def y_def)
  have p: "pairCodePoint c d - 0x10000 = x * 0x400 + y"
    by (simp add: pairCodePoint_def x_def y_def)
  have "(x * 0x400 + y) div 0x400 = x" "(x * 0x400 + y) mod 0x400 = y"
    using y by (simp_all add: div_mult_add mod_mult_add)
  with p xc yd pairCodePoint_lower[OF assms] show ?thesis
    by (simp add: utf16_def)
qed

lemma not_surrogate_range:
  "\<not> isLead c \<Longrightarrow> \<not> isTrail c \<Longrightarrow> unat c < 0xD800 \<or> 0xDFFF < unat c"
  unfolding isLead_def isTrail_def word_le_nat_alt by auto

lemma appendR_simp: "appendR x (Inr y) = Inr (x @ y)"
  by (simp add: appendR_def)

lemma decode_escape_utf8:
  "wellFormed s \<Longrightarrow> decodeURIComponent (escape (map of_nat (utf8Bytes s))) = Inr s"
proof (induction s rule: wellFormed.induct)
  case 1
  then show ?case by (simp add: escape_def)
next
  case (2 c cs)
  show ?case
  proof (cases "isLead c")
    case True
    with 2(3) obtain d ds where cs: "cs = d # ds" and d: "isTrail d" and w: "wellFormed ds"
      by (auto split: list.splits)
    from 2(1)[OF True cs w]
    have ih: "decodeURIComponent (escape (map of_nat (utf8Bytes ds))) = Inr ds" .
    have v: "pairCodePoint c d < 0x110000" "pairCodePoint c d < 0xD800 \<or> 0xDFFF < pairCodePoint c d"
      using pairCodePoint_bound[OF True d] pairCodePoint_lower[OF True d] by simp_all
    have "utf8Bytes (c # cs) = utf8 (pairCodePoint c d) @ utf8Bytes ds"
      using True cs d by simp
    then have "decodeURIComponent (escape (map of_nat (utf8Bytes (c # cs)))) =
        appendR (utf16 (pairCodePoint c d)) (decodeURIComponent (escape (map of_nat (utf8Bytes ds))))"
      using decode_codepoint[OF v] by (simp add: escape_append)
    with ih utf16_pair[OF True d] cs show ?thesis by (simp add: appendR_simp)
  next
    case False
    with 2(3) have nt: "\<not> isTrail c" and w: "wellFormed cs" by simp_all
    from 2(2)[OF False w]
    have ih: "decodeURIComponent (escape (map of_nat (utf8Bytes cs))) = Inr cs" .
    have v: "unat c < 0x110000" "unat c < 0xD800 \<or> 0xDFFF < unat c"
      using unat_lt[of c] not_surrogate_range[OF False nt] by simp_all
    have "utf8Bytes (c # cs) = utf8 (unat c) @ utf8Bytes cs"
      using False by simp
    then have "decodeURIComponent (escape (map of_nat (utf8Bytes (c # cs)))) =
        appendR (utf16 (unat c)) (decodeURIComponent (escape (map of_nat (utf8Bytes cs))))"
      using decode_codepoint[OF v] by (simp add: escape_append)
    with ih utf16_unit[of c] show ?thesis by (simp add: appendR_simp)
  qed
qed

lemma decodeContent_base64:
  assumes "wellFormed s"
  shows "decodeContent (base64 (utf8Bytes s)) = Inr s"
proof -
  have "\<forall>b \<in> set (utf8Bytes s). b < 256"
    using utf8Bytes_bound[OF assms] by blast
  then have "atob (base64 (utf8Bytes s)) = Inr (map of_nat (utf8Bytes s))"
    by (simp add: atob_def base64_roundtrip)
  then show ?thesis
    by (simp add: decodeContent_def decode_escape_utf8[OF assms])
qed

lemma joinWith_splitSlash: "joinWith [0x2F] (splitSlash xs) = xs"
proof (induction xs)
  case Nil then show ?case by simp
next
  case (Cons c cs)
  obtain seg segs where s: "splitSlash cs = seg # segs"
    using splitSlash_nonempty[of cs] by (cases "splitSlash cs") auto
  show ?case
  proof (cases "isSlash c")
    case True
    with Cons s show ?thesis by (simp add: isSlash_def)
  next
    case False
    with Cons s show ?thesis by (cases segs) auto
  qed
qed


lemma splitSlash_dropWhile:
  "filter (\<lambda>s. s \<noteq> []) (butlast (splitSlash cs)) =
     filter (\<lambda>s. s \<noteq> []) (butlast (splitSlash (dropWhile isSlash cs))) \<and>
   last (splitSlash cs) = last (splitSlash (dropWhile isSlash cs))"
proof (induction cs)
  case Nil then show ?case by simp
next
  case (Cons c cs)
  show ?case
  proof (cases "isSlash c")
    case True
    with Cons splitSlash_nonempty[of cs] show ?thesis by simp
  next
    case False
    then show ?thesis by simp
  qed
qed

lemma splitSlash_collapse:
  "splitSlash (collapseSlashes xs) =
     (case splitSlash xs of
        [] \<Rightarrow> []
      | s0 # rest \<Rightarrow> if rest = [] then [s0] else s0 # filter (\<lambda>s. s \<noteq> []) (butlast rest) @ [last rest])"
proof (induction xs rule: collapseSlashes.induct)
  case 1 then show ?case by simp
next
  case (2 c cs)
  show ?case
  proof (cases "isSlash c")
    case False
    obtain s0 rest where s: "splitSlash cs = s0 # rest"
      using splitSlash_nonempty[of cs] by (cases "splitSlash cs") auto
    from 2(2)[OF False] False s show ?thesis by (auto split: list.splits)
  next
    case True
    let ?d = "dropWhile isSlash cs"
    obtain t0 r where t: "splitSlash ?d = t0 # r"
      using splitSlash_nonempty[of ?d] by (cases "splitSlash ?d") auto
    have t0: "r \<noteq> [] \<Longrightarrow> t0 \<noteq> []"
    proof -
      assume r: "r \<noteq> []"
      show "t0 \<noteq> []"
      proof (cases ?d)
        case Nil with t r show ?thesis by simp
      next
        case (Cons e es)
        then have "\<not> isSlash e" by (metis hd_dropWhile list.sel(1) list.distinct(1))
        with Cons t show ?thesis by (auto split: list.splits)
      qed
    qed
    have coll: "collapseSlashes (c # cs) = 0x2F # collapseSlashes ?d" using True by simp
    have sp: "splitSlash (collapseSlashes (c # cs)) = [] # splitSlash (collapseSlashes ?d)"
      unfolding coll by (simp add: isSlash_def)
    have ih: "splitSlash (collapseSlashes ?d) =
        (if r = [] then [t0] else t0 # filter (\<lambda>s. s \<noteq> []) (butlast r) @ [last r])"
      using 2(1)[OF True] t by simp
    have whole: "splitSlash (c # cs) = [] # splitSlash cs" using True by simp
    note dw = splitSlash_dropWhile[of cs]
    have ne: "splitSlash cs \<noteq> []" by (rule splitSlash_nonempty)
    show ?thesis
      unfolding sp ih whole using dw t t0 ne by (cases "r = []") auto
  qed
qed

lemma splitSlash_rawPath:
  "splitSlash (rawPath cfg fname) = filter (\<lambda>s. s \<noteq> []) (butlast (splitSlash (pathPrefix cfg @ fname))) @
       [last (splitSlash (pathPrefix cfg @ fname))]"
proof -
  let ?inp = "pathPrefix cfg @ fname"
  obtain s0 rest where s: "splitSlash ?inp = s0 # rest"
    using splitSlash_nonempty[of ?inp] by (cases "splitSlash ?inp") auto
  note c = splitSlash_collapse[of ?inp]
  show ?thesis
  proof (cases "collapseSlashes ?inp")
    case Nil
    with c s show ?thesis
      by (auto simp: rawPath_def stripLeadingSlash_def split: if_splits)
  next
    case (Cons e es)
    show ?thesis
    proof (cases "isSlash e")
      case True
      then have "splitSlash (collapseSlashes ?inp) = [] # splitSlash es" using Cons by simp
      with c s Cons True splitSlash_nonempty[of es] show ?thesis
        by (auto simp: rawPath_def stripLeadingSlash_def split: if_splits)
    next
      case False
      obtain u us where u: "splitSlash es = u # us"
        using splitSlash_nonempty[of es] by (cases "splitSlash es") auto
      then have "splitSlash (collapseSlashes ?inp) = (e # u) # us" using Cons False by simp
      with c s Cons False show ?thesis
        by (auto simp: rawPath_def stripLeadingSlash_def split: if_splits)
    qed
  qed
qed

subsection \<open>The claims about the store client\<close>

lemmas upload_eval =
  uploadFileToGitHub_def contentsUrl_def path_eval encodedPath_def isUriUnescaped_def isAlnum_def
  isUriMark_def appendR_def base64Content_def btoa_def putResult_def checkSha_def truthy_def
  Let_def isLead_def isTrail_def utf8_def percentEncode_def hexDigit_def hexDigitValue_def
  base64Char_def

lemma encodedPath_total:
  "wellFormed (pathPrefix cfg @ fname) \<Longrightarrow> \<exists>p. encodedPath (rawPath cfg fname) = Inr p"
proof -
  assume "wellFormed (pathPrefix cfg @ fname)"
  then have "wellFormed (rawPath cfg fname)" by (rule wellFormed_rawPath)
  then have "\<forall>seg \<in> set (splitSlash (rawPath cfg fname)). wellFormed seg"
    using splitSlash_wellFormed by blast
  then obtain xs where "mapEncode (splitSlash (rawPath cfg fname)) = Inr xs"
    using mapEncode_wellFormed by blast
  then show ?thesis by (simp add: encodedPath_def)
qed

text \<open>
  Claim C10, as the claim states it, fails. With the default prefix and an empty file
  name the raw path is \<open>novels/my-novels/\<close>: its last segment is empty, and so is the last
  segment of the URL path. With a file name that holds a surrogate without partner no
  segment is encoded: \<^verbatim>\<open>encodeURIComponent\<close> throws.
\<close>

theorem encodedPath_counterexample:
  "encodedPath (rawPath DEFAULT_CONFIG []) = Inr (js ''novels/my-novels/'') \<and>
   splitSlash (js ''novels/my-novels/'') = [js ''novels'', js ''my-novels'', []] \<and>
   encodedPath (rawPath DEFAULT_CONFIG [0xD800]) = Inl URIError"
  by (simp add: upload_eval)

text \<open>
  Claim C10, amended. Split at the slashes, prefix followed by file name is a list of
  segments; the raw path is the segments before the last one that are not empty, and then
  the last one, joined by single slashes. So every run of slashes has become one slash
  and a leading slash is gone, but a slash at the end stays: the last segment is then
  empty. The raw path has no two slashes side by side and no leading slash, and apart
  from slashes it is the prefix followed by the file name. When prefix and file name hold
  no surrogate without partner, the URL path exists; it is the segments of the raw path,
  each encoded by \<^verbatim>\<open>encodeURIComponent\<close>, joined by slashes; no segment but possibly the
  last is empty; it has no leading slash; it consists of slashes, percent signs and the
  characters \<^verbatim>\<open>encodeURIComponent\<close> leaves alone (ASCII letters, digits and
  \<open>- _ . ! ~ * ' ( )\<close>); and the first request goes to the URL that ends with it.
\<close>

theorem encodedPath_normalized:
  "rawPath cfg fname =
     joinWith [0x2F]
       (filter (\<lambda>s. s \<noteq> []) (butlast (splitSlash (pathPrefix cfg @ fname))) @
        [last (splitSlash (pathPrefix cfg @ fname))]) \<and>
   \<not> hasDoubleSlash (rawPath cfg fname) \<and>
   take 1 (rawPath cfg fname) \<noteq> [0x2F] \<and>
   filter (\<lambda>c. \<not> isSlash c) (rawPath cfg fname) =
     filter (\<lambda>c. \<not> isSlash c) (pathPrefix cfg @ fname) \<and>
   (wellFormed (pathPrefix cfg @ fname) \<longrightarrow>
      (\<exists>p. encodedPath (rawPath cfg fname) = Inr p \<and>
           list_all2 (\<lambda>seg x. encodeURIComponent seg = Inr x)
             (splitSlash (rawPath cfg fname)) (splitSlash p) \<and>
           p = joinWith [0x2F] (splitSlash p) \<and>
           [] \<notin> set (butlast (splitSlash p)) \<and> take 1 p \<noteq> [0x2F] \<and>
           list_all (\<lambda>c. isSlash c \<or> c = 0x25 \<or> isUriUnescaped c) p \<and>
           (\<exists>rest. fst (uploadFileToGitHub http cfg fname cont msg) =
              GET (contentsUrl cfg p) # rest)))"
proof (intro conjI impI)
  let ?raw = "rawPath cfg fname"
  have "joinWith [0x2F] (splitSlash ?raw) = ?raw" by (rule joinWith_splitSlash)
  then show "?raw =
     joinWith [0x2F]
       (filter (\<lambda>s. s \<noteq> []) (butlast (splitSlash (pathPrefix cfg @ fname))) @
        [last (splitSlash (pathPrefix cfg @ fname))])"
    by (simp add: splitSlash_rawPath)
  note sh = rawPath_shape[of cfg fname]
  from sh show "\<not> hasDoubleSlash ?raw" by simp
  show "take 1 ?raw \<noteq> [0x2F]"
  proof
    assume "take 1 ?raw = [0x2F]"
    then obtain r where "?raw = 0x2F # r" by (cases ?raw) auto
    then have "?raw \<noteq> [] \<and> isSlash (hd ?raw)" by (simp add: isSlash_def)
    with sh show False by blast
  qed
  show "filter (\<lambda>c. \<not> isSlash c) ?raw = filter (\<lambda>c. \<not> isSlash c) (pathPrefix cfg @ fname)"
    by (rule filter_rawPath)
  assume "wellFormed (pathPrefix cfg @ fname)"
  then have w: "wellFormed ?raw" by (rule wellFormed_rawPath)
  then have "\<forall>seg \<in> set (splitSlash ?raw). wellFormed seg"
    using splitSlash_wellFormed by blast
  then obtain xs where xs: "mapEncode (splitSlash ?raw) = Inr xs"
    using mapEncode_wellFormed by blast
  then have l2: "list_all2 (\<lambda>seg x. encodeURIComponent seg = Inr x) (splitSlash ?raw) xs"
    by (simp add: mapEncode_Inr)
  have ne: "xs \<noteq> []"
    using l2 splitSlash_nonempty[of ?raw] by auto
  have ch: "\<forall>x \<in> set xs. list_all isEncodedChar x"
  proof
    fix x assume "x \<in> set xs"
    then obtain i where i: "i < length xs" "xs ! i = x" by (auto simp: in_set_conv_nth)
    with l2 have "encodeURIComponent (splitSlash ?raw ! i) = Inr x"
      by (auto simp: list_all2_conv_all_nth)
    then show "list_all isEncodedChar x" by (rule encodeURIComponent_chars)
  qed
  then have ns: "\<forall>x \<in> set xs. \<not> list_ex isSlash x"
    using encoded_no_slash by blast
  let ?p = "joinWith [0x2F] xs"
  have p: "encodedPath ?raw = Inr ?p" using xs by (simp add: encodedPath_def)
  have sp: "splitSlash ?p = xs" using ne ns by (rule splitSlash_joinWith)
  have rs: "[] \<notin> set (butlast (splitSlash ?raw))"
    using sh by (intro raw_segments) blast+
  have seg: "[] \<notin> set (butlast (splitSlash ?p))"
    unfolding sp by (rule encoded_segments[OF l2 rs])
  have lead: "take 1 ?p \<noteq> [0x2F]"
  proof
    assume "take 1 ?p = [0x2F]"
    then obtain r where "?p = 0x2F # r" by (cases ?p) auto
    then have "splitSlash ?p = [] # splitSlash r" by (simp add: isSlash_def)
    with seg splitSlash_nonempty[of r] show False by (cases "splitSlash r") auto
  qed
  have c1: "\<forall>x \<in> set xs. list_all (\<lambda>c. isSlash c \<or> c = 0x25 \<or> isUriUnescaped c) x"
    using ch by (auto simp: list_all_iff isEncodedChar_def)
  have c2: "list_all (\<lambda>c. isSlash c \<or> c = 0x25 \<or> isUriUnescaped c) [0x2F]"
    by (simp add: isSlash_def)
  have cs: "list_all (\<lambda>c. isSlash c \<or> c = 0x25 \<or> isUriUnescaped c) ?p"
    using c1 c2 by (rule joinWith_chars)
  from l2 sp have me: "list_all2 (\<lambda>seg x. encodeURIComponent seg = Inr x)
      (splitSlash ?raw) (splitSlash ?p)" by simp
  have jn: "?p = joinWith [0x2F] (splitSlash ?p)" by (simp add: joinWith_splitSlash)
  have url: "\<exists>rest. fst (uploadFileToGitHub http cfg fname cont msg) =
      GET (contentsUrl cfg ?p) # rest"
    using p by (cases "base64Content cont") (simp_all add: uploadFileToGitHub_def Let_def)
  show "\<exists>p. encodedPath ?raw = Inr p \<and>
           list_all2 (\<lambda>seg x. encodeURIComponent seg = Inr x) (splitSlash ?raw) (splitSlash p) \<and>
           p = joinWith [0x2F] (splitSlash p) \<and>
           [] \<notin> set (butlast (splitSlash p)) \<and> take 1 p \<noteq> [0x2F] \<and>
           list_all (\<lambda>c. isSlash c \<or> c = 0x25 \<or> isUriUnescaped c) p \<and>
           (\<exists>rest. fst (uploadFileToGitHub http cfg fname cont msg) =
              GET (contentsUrl cfg p) # rest)"
    using p me jn seg lead cs url by (intro exI[of _ ?p] conjI) assumption+
qed

theorem encodedPath_normalized_witness:
  "wellFormed (pathPrefix DEFAULT_CONFIG @ js ''/'' @ [0x6587, 0xD83D, 0xDE00] @ js ''//a b/'') \<and>
   rawPath DEFAULT_CONFIG (js ''/'' @ [0x6587, 0xD83D, 0xDE00] @ js ''//a b/'') =
     js ''novels/my-novels/'' @ [0x6587, 0xD83D, 0xDE00] @ js ''/a b/'' \<and>
   splitSlash (rawPath DEFAULT_CONFIG (js ''/'' @ [0x6587, 0xD83D, 0xDE00] @ js ''//a b/'')) =
     [js ''novels'', js ''my-novels'', [0x6587, 0xD83D, 0xDE00], js ''a b'', []] \<and>
   encodedPath (rawPath DEFAULT_CONFIG (js ''/'' @ [0x6587, 0xD83D, 0xDE00] @ js ''//a b/'')) =
     Inr (js ''novels/my-novels/%E6%96%87%F0%9F%98%80/a%20b/'') \<and>
   (\<exists>p. encodedPath (rawPath DEFAULT_CONFIG (js ''/'' @ [0x6587, 0xD83D, 0xDE00] @ js ''//a b/''))
          = Inr p \<and>
        [] \<notin> set (butlast (splitSlash p)) \<and> take 1 p \<noteq> [0x2F] \<and>
        list_all (\<lambda>c. isSlash c \<or> c = 0x25 \<or> isUriUnescaped c) p)"
proof -
  let ?f = "js ''/'' @ [0x6587, 0xD83D, 0xDE00] @ js ''//a b/''"
  have w: "wellFormed (pathPrefix DEFAULT_CONFIG @ ?f)"
    by (simp add: DEFAULT_CONFIG_def js_def isLead_def isTrail_def)
  have r: "rawPath DEFAULT_CONFIG ?f =
      js ''novels/my-novels/'' @ [0x6587, 0xD83D, 0xDE00] @ js ''/a b/''"
    by (simp add: path_eval)
  have s: "splitSlash (rawPath DEFAULT_CONFIG ?f) =
      [js ''novels'', js ''my-novels'', [0x6587, 0xD83D, 0xDE00], js ''a b'', []]"
    unfolding r by (simp add: path_eval)
  have e: "encodedPath (rawPath DEFAULT_CONFIG ?f) =
      Inr (js ''novels/my-novels/%E6%96%87%F0%9F%98%80/a%20b/'')"
    unfolding r by (simp add: upload_eval pairCodePoint_def)
  from encodedPath_normalized[of DEFAULT_CONFIG ?f] w
  have "\<exists>p. encodedPath (rawPath DEFAULT_CONFIG ?f) = Inr p \<and>
        [] \<notin> set (butlast (splitSlash p)) \<and> take 1 p \<noteq> [0x2F] \<and>
        list_all (\<lambda>c. isSlash c \<or> c = 0x25 \<or> isUriUnescaped c) p"
    by blast
  with w r s e show ?thesis by (intro conjI) assumption+
qed

text \<open>
  Claim C9, as the claim states it, fails: for a string with a surrogate without partner
  no base64 value is produced, \<^verbatim>\<open>encodeURIComponent\<close> throws.
\<close>

theorem base64Content_counterexample:
  "base64Content [0xD800] = Inl URIError \<and>
   (\<nexists>b. base64Content [0xD800] = Inr b \<and> decodeContent b = Inr [0xD800]) \<and>
   base64Content (js ''a'' @ [0xDC00]) = Inl URIError"
  by (simp add: base64Content_def js_def isUriUnescaped_def isAlnum_def isUriMark_def
      isLead_def isTrail_def appendR_def)

text \<open>
  Claim C9, amended. For every string without a surrogate without partner, the content
  encoding gives the base64 form of the string's UTF-8 bytes, and decoding that value
  (base64-decode, \<^verbatim>\<open>escape\<close>, \<^verbatim>\<open>decodeURIComponent\<close>) gives the string again.
\<close>

theorem base64Content_reversible:
  "wellFormed s \<longrightarrow>
     base64Content s = Inr (base64 (utf8Bytes s)) \<and>
     decodeContent (base64 (utf8Bytes s)) = Inr s"
  using base64Content_wellFormed[of s] decodeContent_base64[of s] by blast

theorem base64Content_reversible_witness:
  "wellFormed [0x6597, 0x20, 0x61, 0xD83D, 0xDE00, 0x25, 0x2F] \<and>
   base64Content [0x6597, 0x20, 0x61, 0xD83D, 0xDE00, 0x25, 0x2F] = Inr (js ''5paXIGHwn5iAJS8='') \<and>
   decodeContent (js ''5paXIGHwn5iAJS8='') = Inr [0x6597, 0x20, 0x61, 0xD83D, 0xDE00, 0x25, 0x2F]"
proof -
  let ?s = "[0x6597, 0x20, 0x61, 0xD83D, 0xDE00, 0x25, 0x2F] :: jsstring"
  have w: "wellFormed ?s"
    by (simp add: isLead_def isTrail_def)
  have b: "base64 (utf8Bytes ?s) = js ''5paXIGHwn5iAJS8=''"
    by (simp add: isLead_def isTrail_def utf8_def pairCodePoint_def base64Char_def js_def)
  from base64Content_reversible[of ?s] w b show ?thesis by simp
qed

lemma putResult_ok:
  "putResult p = UploadResult ok m \<Longrightarrow>
   (ok \<longleftrightarrow> (\<exists>code body. p = PutResponse True code body)) \<and>
   (\<not> ok \<longrightarrow> (\<exists>x. m = Some x \<and> x \<noteq> []))"
proof (cases p)
  case (PutThrows e)
  assume "putResult p = UploadResult ok m"
  with PutThrows show ?thesis
    by (auto simp: putResult_def truthy_def js_def split: option.splits if_splits)
next
  case (PutResponse okp code body)
  assume a: "putResult p = UploadResult ok m"
  show ?thesis
  proof (cases okp)
    case True
    with a PutResponse show ?thesis by (simp add: putResult_def)
  next
    case False
    show ?thesis
    proof (cases body)
      case (TextThrows e)
      with a PutResponse False show ?thesis
        by (auto simp: putResult_def truthy_def js_def split: option.splits if_splits)
    next
      case (TextBody t parsed)
      with a PutResponse False show ?thesis
        by (auto simp: putResult_def truthy_def js_def split: option.splits if_splits)
    qed
  qed
qed

lemma checkSha_truthy:
  "truthy (checkSha g) \<longleftrightarrow> (\<exists>v. g = GetResponse True (JsonSha (Some v)) \<and> v \<noteq> [])"
  by (auto simp: checkSha_def truthy_def split: GetOutcome.splits JsonSha.splits option.splits)

lemma checkSha_Some:
  "checkSha g = Some v \<longleftrightarrow> g = GetResponse True (JsonSha (Some v))"
  by (auto simp: checkSha_def split: GetOutcome.splits JsonSha.splits option.splits)

lemma uploadFileToGitHub_Inr:
  assumes "uploadFileToGitHub http cfg fname cont msg = (reqs, Inr res)"
  shows "\<exists>path b64.
     reqs = [GET (contentsUrl cfg path),
             PUT (contentsUrl cfg path)
               (PutBody msg b64
                  (if truthy (checkSha (httpGet http (contentsUrl cfg path)))
                   then checkSha (httpGet http (contentsUrl cfg path)) else None))] \<and>
     res = putResult (httpPut http (contentsUrl cfg path)
             (PutBody msg b64
                (if truthy (checkSha (httpGet http (contentsUrl cfg path)))
                 then checkSha (httpGet http (contentsUrl cfg path)) else None)))"
proof (cases "encodedPath (rawPath cfg fname)")
  case (Inl e)
  with assms show ?thesis by (simp add: uploadFileToGitHub_def)
next
  case (Inr path)
  show ?thesis
  proof (cases "base64Content cont")
    case (Inl e)
    with assms Inr show ?thesis by (simp add: uploadFileToGitHub_def Let_def)
  next
    case b: (Inr b64)
    with assms Inr show ?thesis by (auto simp: uploadFileToGitHub_def Let_def)
  qed
qed

text \<open>
  Claim C8, amended. When path prefix, file name and content hold no surrogate without
  partner, \<^verbatim>\<open>uploadFileToGitHub\<close> returns. Whenever it returns, it has sent the GET and
  the PUT to the same URL; the body of the PUT has a \<^verbatim>\<open>sha\<close> exactly when the GET
  succeeded and the \<^verbatim>\<open>sha\<close> of its JSON answer is a non-empty string, and then it is that
  string; \<^verbatim>\<open>success\<close> is true exactly when the answer to the PUT is OK; and when
  \<^verbatim>\<open>success\<close> is false (an answer that is not OK, or a thrown error) there is a
  non-empty message.
\<close>

theorem uploadFileToGitHub_result:
  "(wellFormed (pathPrefix cfg @ fname) \<and> wellFormed cont \<longrightarrow>
      (\<exists>reqs res. uploadFileToGitHub http cfg fname cont msg = (reqs, Inr res))) \<and>
   (uploadFileToGitHub http cfg fname cont msg = (reqs, Inr (UploadResult ok m)) \<longrightarrow>
      (\<exists>url b64 sha.
         reqs = [GET url, PUT url (PutBody msg b64 sha)] \<and>
         ((\<exists>v. sha = Some v) \<longleftrightarrow>
            (\<exists>v. httpGet http url = GetResponse True (JsonSha (Some v)) \<and> v \<noteq> [])) \<and>
         (\<forall>v. sha = Some v \<longrightarrow> httpGet http url = GetResponse True (JsonSha (Some v))) \<and>
         (ok \<longleftrightarrow> (\<exists>code body. httpPut http url (PutBody msg b64 sha) = PutResponse True code body)) \<and>
         (\<not> ok \<longrightarrow> (\<exists>x. m = Some x \<and> x \<noteq> []))))"
proof (intro conjI impI)
  assume w: "wellFormed (pathPrefix cfg @ fname) \<and> wellFormed cont"
  then obtain p where p: "encodedPath (rawPath cfg fname) = Inr p"
    using encodedPath_total[of cfg fname] by blast
  from w have b: "base64Content cont = Inr (base64 (utf8Bytes cont))"
    by (simp add: base64Content_wellFormed)
  from p b show "\<exists>reqs res. uploadFileToGitHub http cfg fname cont msg = (reqs, Inr res)"
    by (simp add: uploadFileToGitHub_def Let_def)
next
  assume a: "uploadFileToGitHub http cfg fname cont msg = (reqs, Inr (UploadResult ok m))"
  from uploadFileToGitHub_Inr[OF a] obtain path b64 where
    r: "reqs = [GET (contentsUrl cfg path),
             PUT (contentsUrl cfg path)
               (PutBody msg b64
                  (if truthy (checkSha (httpGet http (contentsUrl cfg path)))
                   then checkSha (httpGet http (contentsUrl cfg path)) else None))]"
    and u: "UploadResult ok m = putResult (httpPut http (contentsUrl cfg path)
             (PutBody msg b64
                (if truthy (checkSha (httpGet http (contentsUrl cfg path)))
                 then checkSha (httpGet http (contentsUrl cfg path)) else None)))"
    by blast
  define url where "url = contentsUrl cfg path"
  define sha where "sha = (if truthy (checkSha (httpGet http url)) then checkSha (httpGet http url)
                           else None)"
  from r have r': "reqs = [GET url, PUT url (PutBody msg b64 sha)]"
    by (simp add: url_def sha_def)
  from u have u': "putResult (httpPut http url (PutBody msg b64 sha)) = UploadResult ok m"
    by (simp add: url_def sha_def)
  have s1: "(\<exists>v. sha = Some v) \<longleftrightarrow>
      (\<exists>v. httpGet http url = GetResponse True (JsonSha (Some v)) \<and> v \<noteq> [])"
  proof (cases "truthy (checkSha (httpGet http url))")
    case True
    then obtain v where v: "httpGet http url = GetResponse True (JsonSha (Some v))" "v \<noteq> []"
      using checkSha_truthy by blast
    then have "checkSha (httpGet http url) = Some v" by (simp add: checkSha_Some)
    with True v show ?thesis by (auto simp: sha_def)
  next
    case False
    then have "\<not> (\<exists>v. httpGet http url = GetResponse True (JsonSha (Some v)) \<and> v \<noteq> [])"
      using checkSha_truthy by blast
    with False show ?thesis by (simp add: sha_def)
  qed
  have s2: "\<forall>v. sha = Some v \<longrightarrow> httpGet http url = GetResponse True (JsonSha (Some v))"
    unfolding sha_def using checkSha_Some[of "httpGet http url"] by (auto split: if_splits)
  note pr = putResult_ok[OF u']
  have "reqs = [GET url, PUT url (PutBody msg b64 sha)] \<and>
         ((\<exists>v. sha = Some v) \<longleftrightarrow>
            (\<exists>v. httpGet http url = GetResponse True (JsonSha (Some v)) \<and> v \<noteq> [])) \<and>
         (\<forall>v. sha = Some v \<longrightarrow> httpGet http url = GetResponse True (JsonSha (Some v))) \<and>
         (ok \<longleftrightarrow> (\<exists>code body. httpPut http url (PutBody msg b64 sha) = PutResponse True code body)) \<and>
         (\<not> ok \<longrightarrow> (\<exists>x. m = Some x \<and> x \<noteq> []))"
    using r' s1 s2 pr by (intro conjI) (assumption | simp)+
  then show "\<exists>url b64 sha.
         reqs = [GET url, PUT url (PutBody msg b64 sha)] \<and>
         ((\<exists>v. sha = Some v) \<longleftrightarrow>
            (\<exists>v. httpGet http url = GetResponse True (JsonSha (Some v)) \<and> v \<noteq> [])) \<and>
         (\<forall>v. sha = Some v \<longrightarrow> httpGet http url = GetResponse True (JsonSha (Some v))) \<and>
         (ok \<longleftrightarrow> (\<exists>code body. httpPut http url (PutBody msg b64 sha) = PutResponse True code body)) \<and>
         (\<not> ok \<longrightarrow> (\<exists>x. m = Some x \<and> x \<noteq> []))"
    by (intro exI)
qed

lemmas upload_eval2 = upload_eval dirHttp_def demoUrl_def okEnv_def failEnv_def

text \<open>
  Claim C8, as the claim states it, fails twice. A GET that succeeds with an answer
  without \<^verbatim>\<open>sha\<close> (the path names a directory) leaves the PUT without \<^verbatim>\<open>sha\<close>. And a
  content with a surrogate without partner makes the function throw \<^verbatim>\<open>URIError\<close> after
  the GET: the encoding of the content is outside the \<^verbatim>\<open>try\<close> block.
\<close>

theorem uploadFileToGitHub_counterexample:
  "httpGet dirHttp demoUrl = GetResponse True (JsonSha None) \<and>
   uploadFileToGitHub dirHttp DEFAULT_CONFIG (js ''a.md'') (js ''x'') (js ''m'') =
     ([GET demoUrl, PUT demoUrl (PutBody (js ''m'') (js ''eA=='') None)],
      Inr (UploadResult True None)) \<and>
   uploadFileToGitHub dirHttp DEFAULT_CONFIG (js ''a.md'') [0xD800] (js ''m'') =
     ([GET demoUrl], Inl URIError)"
  by (simp add: upload_eval2)

theorem uploadFileToGitHub_result_witness:
  "wellFormed (pathPrefix DEFAULT_CONFIG @ js ''a.md'') \<and> wellFormed (js ''x'') \<and>
   uploadFileToGitHub (network failEnv) DEFAULT_CONFIG (js ''a.md'') (js ''x'') (js ''m'') =
     ([GET demoUrl, PUT demoUrl (PutBody (js ''m'') (js ''eA=='') (Some (js ''abc'')))],
      Inr (UploadResult False (Some (js ''HTTP 422'')))) \<and>
   (\<exists>url b64 sha.
      [GET demoUrl, PUT demoUrl (PutBody (js ''m'') (js ''eA=='') (Some (js ''abc'')))] =
        [GET url, PUT url (PutBody (js ''m'') b64 sha)] \<and>
      ((\<exists>v. sha = Some v) \<longleftrightarrow>
         (\<exists>v. httpGet (network failEnv) url = GetResponse True (JsonSha (Some v)) \<and> v \<noteq> [])) \<and>
      (False \<longleftrightarrow>
         (\<exists>code body. httpPut (network failEnv) url (PutBody (js ''m'') b64 sha) =
            PutResponse True code body)))"
proof -
  let ?reqs = "[GET demoUrl, PUT demoUrl (PutBody (js ''m'') (js ''eA=='') (Some (js ''abc'')))]"
  have w: "wellFormed (pathPrefix DEFAULT_CONFIG @ js ''a.md'') \<and> wellFormed (js ''x'')"
    by (simp add: DEFAULT_CONFIG_def js_def isLead_def isTrail_def)
  have e: "uploadFileToGitHub (network failEnv) DEFAULT_CONFIG (js ''a.md'') (js ''x'') (js ''m'') =
     (?reqs, Inr (UploadResult False (Some (js ''HTTP 422''))))"
    by (simp add: upload_eval2)
  from uploadFileToGitHub_result[of DEFAULT_CONFIG "js ''a.md''" "js ''x''" "network failEnv"
      "js ''m''" ?reqs False "Some (js ''HTTP 422'')"] e
  have "\<exists>url b64 sha.
      ?reqs = [GET url, PUT url (PutBody (js ''m'') b64 sha)] \<and>
      ((\<exists>v. sha = Some v) \<longleftrightarrow>
         (\<exists>v. httpGet (network failEnv) url = GetResponse True (JsonSha (Some v)) \<and> v \<noteq> [])) \<and>
      (False \<longleftrightarrow>
         (\<exists>code body. httpPut (network failEnv) url (PutBody (js ''m'') b64 sha) =
            PutResponse True code body))"
    by blast
  with w e show ?thesis by blast
qed

end
